theory Spec2Isabelle
  imports Main "HOL-Library.Signed_Division"
begin

section \<open>Strings of the Go standard library\<close>

text \<open>
  A Go string is a sequence of bytes; it is modelled as \<open>string\<close>, whose characters
  are the 256 byte values.  The functions below are the members of package
  \<open>strings\<close> the program calls.  Only the Unicode fallbacks of \<open>TrimSpace\<close>
  and \<open>url.Parse\<close> are not transcribed: they are fields of the environment.
\<close>

abbreviation LF :: char where "LF \<equiv> CHR 0x0A"
abbreviation CR :: char where "CR \<equiv> CHR 0x0D"

text \<open>\<open>strings.Split(s, "\n")\<close>: the pieces between line feeds; one piece for a
  string without any, the empty string included.\<close>

fun Split_LF :: "string \<Rightarrow> string list" where
  "Split_LF [] = [[]]"
| "Split_LF (c # cs) =
     (if c = LF then [] # Split_LF cs
      else (case Split_LF cs of [] \<Rightarrow> [[c]] | l # ls \<Rightarrow> (c # l) # ls))"

text \<open>\<open>strings.ReplaceAll(line, "\r", "")\<close>.\<close>

definition ReplaceAll_CR :: "string \<Rightarrow> string" where
  "ReplaceAll_CR s = filter (\<lambda>c. c \<noteq> CR) s"

text \<open>\<open>strings.HasPrefix(s, prefix)\<close>.\<close>

definition HasPrefix :: "string \<Rightarrow> string \<Rightarrow> bool" where
  "HasPrefix s p = (length p \<le> length s \<and> take (length p) s = p)"

text \<open>\<open>strings.Contains(s, substr)\<close>: some suffix of \<open>s\<close> starts with \<open>substr\<close>.\<close>

fun Contains :: "string \<Rightarrow> string \<Rightarrow> bool" where
  "Contains [] sub = (sub = [])"
| "Contains (c # cs) sub = (HasPrefix (c # cs) sub \<or> Contains cs sub)"

text \<open>The table \<open>asciiSpace\<close> of package \<open>strings\<close>: tab, line feed, vertical tab,
  form feed, carriage return and space.\<close>

definition asciiSpace :: "char \<Rightarrow> bool" where
  "asciiSpace c = (c = CHR 0x09 \<or> c = LF \<or> c = CHR 0x0B \<or> c = CHR 0x0C \<or> c = CR \<or> c = CHR 0x20)"

text \<open>\<open>c >= utf8.RuneSelf\<close>: the byte is not ASCII.\<close>

definition RuneSelf :: "char \<Rightarrow> bool" where
  "RuneSelf c = ((128::nat) \<le> of_char c)"

text \<open>
  \<open>strings.TrimSpace\<close>.  Its first loop walks from the start over ASCII white space;
  its second loop walks from the end.  Either loop, on meeting a byte that is not
  ASCII, hands what is left to the Unicode-aware \<open>TrimFunc\<close> (first loop) or
  \<open>TrimRightFunc\<close> (second loop) with \<open>unicode.IsSpace\<close>; these two are
  parameters.  The second loop is written on the reversed remainder.
\<close>

fun TrimSpace_stop :: "(string \<Rightarrow> string) \<Rightarrow> string \<Rightarrow> string" where
  "TrimSpace_stop trf [] = []"
| "TrimSpace_stop trf (c # cs) =
     (if RuneSelf c then trf (rev (c # cs))
      else if asciiSpace c then TrimSpace_stop trf cs
      else rev (c # cs))"

fun TrimSpace :: "(string \<Rightarrow> string) \<Rightarrow> (string \<Rightarrow> string) \<Rightarrow> string \<Rightarrow> string" where
  "TrimSpace tf trf [] = []"
| "TrimSpace tf trf (c # cs) =
     (if RuneSelf c then tf (c # cs)
      else if asciiSpace c then TrimSpace tf trf cs
      else TrimSpace_stop trf (rev (c # cs)))"

section \<open>The proxy pool\<close>

text \<open>
  What the supplier answers to one \<open>client.Get(pm.apiURL)\<close>: the request fails, or
  a response arrives with a status code and a body that \<open>io.ReadAll\<close> reads
  (\<open>Some\<close>) or fails to read (\<open>None\<close>).
\<close>

datatype reply = GetFailed | Resp int "string option"

text \<open>
  The environment of the pool: the two Unicode fallbacks of \<open>TrimSpace\<close>,
  \<open>url.Parse\<close> (\<open>None\<close> when it returns an error), and the supplier, which gives
  the reply to the \<open>n\<close>-th request sent to it.
\<close>

record 'u env =
  TrimFunc_IsSpace :: "string \<Rightarrow> string"
  TrimRightFunc_IsSpace :: "string \<Rightarrow> string"
  url_Parse :: "string \<Rightarrow> 'u option"
  supplier :: "nat \<Rightarrow> reply"

text \<open>The struct \<open>ProxyManager\<close>, without its two locks.\<close>

record ProxyManager =
  apiURL :: string
  minThreshold :: int
  proxies :: "string list"
  currentIndex :: int
  isRefreshing :: bool

text \<open>The pool together with the number of requests sent to the supplier so far.\<close>

record world =
  pm :: ProxyManager
  calls :: nat

datatype error =
    RequestFailed        \<comment> \<open>fetchProxies: the GET failed\<close>
  | BadStatus int        \<comment> \<open>fetchProxies: status other than 200\<close>
  | ReadFailed           \<comment> \<open>fetchProxies: the body could not be read\<close>
  | RefreshFailed error  \<comment> \<open>GetProxy: empty pool and the refresh failed\<close>
  | StillEmpty           \<comment> \<open>GetProxy: empty pool after the refresh\<close>
  | NoProxy              \<comment> \<open>GetProxy: empty pool under the write lock\<close>
  | ParseFailed          \<comment> \<open>GetProxy: \<open>url.Parse\<close> returned an error\<close>
  | IndexOutOfRange      \<comment> \<open>run-time panic of \<open>pm.proxies[pm.currentIndex]\<close>\<close>

definition trim :: "'u env \<Rightarrow> string \<Rightarrow> string" where
  "trim e s = TrimSpace (TrimFunc_IsSpace e) (TrimRightFunc_IsSpace e) s"

definition formatProxy :: "'u env \<Rightarrow> string \<Rightarrow> string" where
  "formatProxy e raw0 =
     (let raw = trim e raw0 in
      if HasPrefix raw ''http://'' \<or> HasPrefix raw ''https://'' then raw
      else ''http://'' @ raw)"

text \<open>The loop of \<open>fetchProxies\<close> over the split body; \<open>newProxies\<close> is the slice
  it appends to.\<close>

fun parse_lines :: "'u env \<Rightarrow> string list \<Rightarrow> string list \<Rightarrow> string list" where
  "parse_lines e [] newProxies = newProxies"
| "parse_lines e (line0 # rest) newProxies =
     (let line = ReplaceAll_CR (trim e line0) in
      if line = [] then parse_lines e rest newProxies
      else (let proxy = formatProxy e line in
            if proxy \<noteq> [] then parse_lines e rest (newProxies @ [proxy])
            else parse_lines e rest newProxies))"

definition parse_body :: "'u env \<Rightarrow> string \<Rightarrow> string list" where
  "parse_body e body = parse_lines e (Split_LF body) []"

text \<open>\<open>fetchProxies\<close>: one request to the supplier; the pool is written only on the
  last path.  The result is the returned error, if any, and the new state.\<close>

definition fetchProxies :: "'u env \<Rightarrow> world \<Rightarrow> error option \<times> world" where
  "fetchProxies e w =
     (let w1 = w\<lparr>calls := calls w + 1\<rparr> in
      case supplier e (calls w) of
        GetFailed \<Rightarrow> (Some RequestFailed, w1)
      | Resp status rd \<Rightarrow>
          if status \<noteq> 200 then (Some (BadStatus status), w1)
          else (case rd of
                  None \<Rightarrow> (Some ReadFailed, w1)
                | Some body \<Rightarrow>
                    (None, w1\<lparr>pm := (pm w1)\<lparr>proxies := parse_body e body, currentIndex := 0\<rparr>\<rparr>)))"

text \<open>\<open>NewProxyManager\<close>: the empty pool, then one synchronous load whose failure
  is only logged.\<close>

definition NewProxyManager :: "'u env \<Rightarrow> nat \<Rightarrow> string \<Rightarrow> int \<Rightarrow> world" where
  "NewProxyManager e n url threshold =
     snd (fetchProxies e
       \<lparr>pm = \<lparr>apiURL = url, minThreshold = threshold, proxies = [],
               currentIndex = 0, isRefreshing = False\<rparr>,
        calls = n\<rparr>)"

text \<open>
  The part of \<open>GetProxy\<close> under the write lock: the address at the cursor, the
  cursor moved on.  Go's \<open>%\<close> truncates towards zero (\<open>smod\<close>); indexing outside
  the slice panics.
\<close>

definition select_proxy :: "'u env \<Rightarrow> world \<Rightarrow> (error + 'u) \<times> world" where
  "select_proxy e w =
     (let p = pm w; n = int (length (proxies p)) in
      if n = 0 then (Inl NoProxy, w)
      else if currentIndex p < 0 \<or> n \<le> currentIndex p then (Inl IndexOutOfRange, w)
      else (let proxyStr = proxies p ! nat (currentIndex p);
                w' = w\<lparr>pm := p\<lparr>currentIndex := (currentIndex p + 1) smod n\<rparr>\<rparr>
            in case url_Parse e proxyStr of
                 None \<Rightarrow> (Inl ParseFailed, w')
               | Some u \<Rightarrow> (Inr u, w')))"

text \<open>
  \<open>GetProxy\<close>.  The third component of the result tells whether
  \<open>go pm.asyncRefresh()\<close> was started; the refresh itself is a step of its own
  (\<open>asyncRefresh\<close> below), not part of the call.
\<close>

definition GetProxy :: "'u env \<Rightarrow> world \<Rightarrow> (error + 'u) \<times> world \<times> bool" where
  "GetProxy e w =
     (let proxyCount = int (length (proxies (pm w))) in
      if proxyCount = 0 then
        (case fetchProxies e w of
           (Some err, w1) \<Rightarrow> (Inl (RefreshFailed err), w1, False)
         | (None, w1) \<Rightarrow>
             (let proxyCount = int (length (proxies (pm w1))) in
              if proxyCount = 0 then (Inl StillEmpty, w1, False)
              else (let (r, w2) = select_proxy e w1
                    in (r, w2, proxyCount < minThreshold (pm w1)))))
      else (let (r, w2) = select_proxy e w
            in (r, w2, proxyCount < minThreshold (pm w))))"

text \<open>The loop of \<open>RemoveProxy\<close>: the first index \<open>i\<close>, counted from \<open>k\<close>, whose
  element equals \<open>proxyURL\<close>.\<close>

fun first_match :: "nat \<Rightarrow> string list \<Rightarrow> string \<Rightarrow> nat option" where
  "first_match k [] proxyURL = None"
| "first_match k (proxy # rest) proxyURL =
     (if proxy = proxyURL then Some k else first_match (Suc k) rest proxyURL)"

text \<open>\<open>RemoveProxy\<close>; the second component tells whether
  \<open>go pm.asyncRefresh()\<close> was started.\<close>

definition RemoveProxy :: "string \<Rightarrow> world \<Rightarrow> world \<times> bool" where
  "RemoveProxy proxyURL w =
     (let p = pm w in
      case first_match 0 (proxies p) proxyURL of
        None \<Rightarrow> (w, False)
      | Some i \<Rightarrow>
          (let ps = take i (proxies p) @ drop (i + 1) (proxies p);
               n = int (length ps);
               idx = (if n \<le> currentIndex p \<and> 0 < n then 0 else currentIndex p)
           in (w\<lparr>pm := p\<lparr>proxies := ps, currentIndex := idx\<rparr>\<rparr>, n < minThreshold p)))"

text \<open>
  \<open>asyncRefresh\<close>, run alone from lock to unlock: the flag is tested, set, and
  reset by the deferred function once \<open>fetchProxies\<close> has returned; the error of
  \<open>fetchProxies\<close> is only logged.
\<close>

definition asyncRefresh :: "'u env \<Rightarrow> world \<Rightarrow> world" where
  "asyncRefresh e w =
     (if isRefreshing (pm w) then w
      else (let w1 = snd (fetchProxies e (w\<lparr>pm := (pm w)\<lparr>isRefreshing := True\<rparr>\<rparr>))
            in w1\<lparr>pm := (pm w1)\<lparr>isRefreshing := False\<rparr>\<rparr>))"

text \<open>\<open>n\<close> calls of \<open>GetProxy\<close> in a row, nothing else touching the pool in between:
  the values returned, in order, and the final state.\<close>

fun GetProxy_times :: "'u env \<Rightarrow> nat \<Rightarrow> world \<Rightarrow> (error + 'u) list \<times> world" where
  "GetProxy_times e 0 w = ([], w)"
| "GetProxy_times e (Suc k) w =
     (let (r, w1, spawned) = GetProxy e w;
          (rs, w2) = GetProxy_times e k w1
      in (r # rs, w2))"

text \<open>What \<open>GetProxy\<close> returns once it has picked the address \<open>proxyStr\<close>.\<close>

definition returned :: "'u env \<Rightarrow> string \<Rightarrow> error + 'u" where
  "returned e proxyStr =
     (case url_Parse e proxyStr of None \<Rightarrow> Inl ParseFailed | Some u \<Rightarrow> Inr u)"

subsection \<open>The scheme that \<open>url.Parse\<close> reads\<close>

text \<open>
  \<open>url.Parse\<close> belongs to package \<open>net/url\<close> of the Go standard library, not to
  the repository; in the pool it is a parameter.  Its scheme, however, is found by
  the small scanner \<open>getScheme\<close> of that package, transcribed here: letters go
  on, digits and \<open>+ - .\<close> go on except in first place, a colon ends the scheme,
  anything else means that there is none.  The result is the scheme and the rest,
  or \<open>None\<close> for the error "missing protocol scheme".
\<close>

definition is_alpha :: "char \<Rightarrow> bool" where
  "is_alpha c = (((97::nat) \<le> of_char c \<and> of_char c \<le> (122::nat))
                 \<or> ((65::nat) \<le> of_char c \<and> of_char c \<le> (90::nat)))"

definition is_scheme_sign :: "char \<Rightarrow> bool" where
  "is_scheme_sign c = (((48::nat) \<le> of_char c \<and> of_char c \<le> (57::nat))
                 \<or> c = CHR ''+'' \<or> c = CHR ''-'' \<or> c = CHR ''.'')"

fun getScheme_from :: "nat \<Rightarrow> string \<Rightarrow> string \<Rightarrow> (string \<times> string) option" where
  "getScheme_from i rawURL [] = Some ([], rawURL)"
| "getScheme_from i rawURL (c # cs) =
     (if is_alpha c then getScheme_from (Suc i) rawURL cs
      else if is_scheme_sign c then
        (if i = 0 then Some ([], rawURL) else getScheme_from (Suc i) rawURL cs)
      else if c = CHR '':'' then
        (if i = 0 then None else Some (take i rawURL, drop (Suc i) rawURL))
      else Some ([], rawURL))"

definition getScheme :: "string \<Rightarrow> (string \<times> string) option" where
  "getScheme rawURL = getScheme_from 0 rawURL rawURL"

subsection \<open>Properties of pool states\<close>

text \<open>The cursor is not negative and, in a pool that is not empty, below its length.\<close>

definition cursor_valid :: "ProxyManager \<Rightarrow> bool" where
  "cursor_valid p =
     (0 \<le> currentIndex p \<and> (proxies p \<noteq> [] \<longrightarrow> currentIndex p < int (length (proxies p))))"

definition http_prefixed :: "string \<Rightarrow> bool" where
  "http_prefixed a = (HasPrefix a ''http://'' \<or> HasPrefix a ''https://'')"

definition all_http :: "ProxyManager \<Rightarrow> bool" where
  "all_http p = (\<forall>a \<in> set (proxies p). http_prefixed a)"

text \<open>The replies on which \<open>fetchProxies\<close> returns an error.\<close>

definition fetch_failed :: "reply \<Rightarrow> bool" where
  "fetch_failed r =
     (case r of GetFailed \<Rightarrow> True | Resp status rd \<Rightarrow> status \<noteq> 200 \<or> rd = None)"

subsection \<open>The parsing of a supplier body, as a specification\<close>

text \<open>
  The description to compare \<open>parse_body\<close> with: white space is the six ASCII
  characters; a line is trimmed at both ends, what carriage returns remain inside it
  are deleted, empty lines are dropped, and an entry that does not start with
  \<open>http://\<close> or \<open>https://\<close> gets \<open>http://\<close> in front.
\<close>

definition ascii_trim :: "string \<Rightarrow> string" where
  "ascii_trim s = rev (dropWhile asciiSpace (rev (dropWhile asciiSpace s)))"

definition spec_strip :: "string \<Rightarrow> string" where
  "spec_strip l = filter (\<lambda>c. c \<noteq> CR) (ascii_trim l)"

definition spec_normalize :: "string \<Rightarrow> string" where
  "spec_normalize s = (if http_prefixed s then s else ''http://'' @ s)"

definition spec_parse :: "string \<Rightarrow> string list" where
  "spec_parse body =
     map spec_normalize (filter (\<lambda>l. l \<noteq> []) (map spec_strip (Split_LF body)))"

definition ascii :: "string \<Rightarrow> bool" where
  "ascii s = (\<forall>c \<in> set s. \<not> RuneSelf c)"

subsection \<open>Concrete pools and environments\<close>

definition env0 :: "string env" where
  "env0 = \<lparr>TrimFunc_IsSpace = (\<lambda>s. s), TrimRightFunc_IsSpace = (\<lambda>s. s),
           url_Parse = Some, supplier = (\<lambda>n. GetFailed)\<rparr>"

definition env_reply :: "reply \<Rightarrow> string env" where
  "env_reply r = env0\<lparr>supplier := (\<lambda>n. r)\<rparr>"

definition pool3 :: world where
  "pool3 = \<lparr>pm = \<lparr>apiURL = ''http://supplier/get'', minThreshold = 2,
                   proxies = [''http://1.1.1.1:80'', ''http://2.2.2.2:80'', ''http://3.3.3.3:80''],
                   currentIndex = 1, isRefreshing = False\<rparr>,
            calls = 1\<rparr>"

text \<open>A pool of two addresses after one \<open>GetProxy\<close>, and the same pool as its
  load left it.\<close>

definition pool2 :: world where
  "pool2 = \<lparr>pm = \<lparr>apiURL = ''http://supplier/get'', minThreshold = 2,
                   proxies = [''http://1.1.1.1:80'', ''http://2.2.2.2:80''],
                   currentIndex = 1, isRefreshing = False\<rparr>,
            calls = 1\<rparr>"

definition loaded2 :: world where
  "loaded2 = pool2\<lparr>pm := (pm pool2)\<lparr>currentIndex := 0\<rparr>\<rparr>"

definition pool0 :: world where
  "pool0 = \<lparr>pm = \<lparr>apiURL = ''http://supplier/get'', minThreshold = 2,
                   proxies = [], currentIndex = 0, isRefreshing = False\<rparr>,
            calls = 0\<rparr>"

section \<open>The store of visited URLs\<close>

text \<open>
  \<open>BoltStorage\<close> keeps its keys in one bucket of a bbolt database.  Of the database
  the model keeps what the two methods can observe: whether the handle is open, and
  the buckets, each a finite map from keys to values.  \<open>db.Update\<close> and
  \<open>db.View\<close> fail on a closed handle; \<open>Update\<close> commits what its function wrote
  when the function returns no error and discards it otherwise; \<open>b.Put\<close> refuses an
  empty key, a key above \<open>MaxKeySize\<close> and a value above \<open>MaxValueSize\<close>;
  \<open>b.Get\<close> returns \<open>nil\<close> (here \<open>None\<close>) for a key that is not in the bucket.
  Faults of the file system below the database are not part of the model.
\<close>

type_synonym bucket = "string \<rightharpoonup> string"

record DB =
  is_open :: bool
  buckets :: "string \<rightharpoonup> bucket"

record BoltStorage =
  db :: DB
  bucketName :: string

datatype storage_error =
    ErrDatabaseNotOpen | ErrKeyRequired | ErrKeyTooLarge | ErrValueTooLarge
  | BucketMissing

definition MaxKeySize :: nat where "MaxKeySize = 32768"
definition MaxValueSize :: nat where "MaxValueSize = 2 ^ 31 - 2"

definition Put :: "bucket \<Rightarrow> string \<Rightarrow> string \<Rightarrow> storage_error + bucket" where
  "Put b key val =
     (if length key = 0 then Inl ErrKeyRequired
      else if MaxKeySize < length key then Inl ErrKeyTooLarge
      else if MaxValueSize < length val then Inl ErrValueTooLarge
      else Inr (b(key \<mapsto> val)))"

text \<open>\<open>IsVisited\<close>: an error of the transaction is logged and answered \<open>false\<close>.\<close>

definition IsVisited :: "string \<Rightarrow> BoltStorage \<Rightarrow> bool" where
  "IsVisited url s =
     (if \<not> is_open (db s) then False
      else (case buckets (db s) (bucketName s) of
              None \<Rightarrow> False
            | Some b \<Rightarrow> b url \<noteq> None))"

text \<open>\<open>MarkVisited\<close>; \<open>timestamp\<close> is \<open>time.Now().Format(time.RFC3339)\<close> at the
  time of the call.  The result is the error returned, if any, and the store.\<close>

definition MarkVisited :: "string \<Rightarrow> string \<Rightarrow> BoltStorage \<Rightarrow> storage_error option \<times> BoltStorage" where
  "MarkVisited timestamp url s =
     (if \<not> is_open (db s) then (Some ErrDatabaseNotOpen, s)
      else (case buckets (db s) (bucketName s) of
              None \<Rightarrow> (Some BucketMissing, s)
            | Some b \<Rightarrow>
                (case Put b url timestamp of
                   Inl err \<Rightarrow> (Some err, s)
                 | Inr b' \<Rightarrow>
                     (None, s\<lparr>db := (db s)\<lparr>buckets := (buckets (db s))(bucketName s \<mapsto> b')\<rparr>\<rparr>))))"

definition store0 :: BoltStorage where
  "store0 = \<lparr>db = \<lparr>is_open = True, buckets = [''visited_urls'' \<mapsto> Map.empty]\<rparr>,
             bucketName = ''visited_urls''\<rparr>"

section \<open>The error callback\<close>

text \<open>
  The calls the \<open>OnError\<close> handler makes on its collaborators, in order:
  \<open>storage.MarkVisited\<close>, \<open>proxyManager.RemoveProxy\<close> and \<open>r.Request.Retry\<close>.
\<close>

datatype action = Mark string | Evict string | Retry

text \<open>
  The handler of \<open>setupCallbacks\<close>: \<open>statusCode\<close>, \<open>requestURL\<close> and
  \<open>proxyURL\<close> are read from the response; \<open>err\<close> is \<open>None\<close> for a nil error
  and the text of \<open>err.Error()\<close> otherwise.
\<close>

definition OnError :: "int \<Rightarrow> string \<Rightarrow> string \<Rightarrow> string option \<Rightarrow> action list" where
  "OnError statusCode requestURL proxyURL err =
     (let (shouldRetry, marks) =
        (if statusCode = 404 then (False, [Mark requestURL])
         else if statusCode = 403 \<or> statusCode = 429 \<or> statusCode = 503 then (True, [])
         else if (case err of
                    None \<Rightarrow> False
                  | Some msg \<Rightarrow> Contains msg ''timeout'' \<or> Contains msg ''connection refused''
                                 \<or> Contains msg ''EOF'')
              then (True, [])
         else (False, []))
      in marks @
         (if shouldRetry
          then (if proxyURL \<noteq> [] then [Evict proxyURL] else []) @ [Retry]
          else []))"




definition recognised :: "string \<Rightarrow> bool" where
  "recognised msg =
     (Contains msg ''timeout'' \<or> Contains msg ''connection refused'' \<or> Contains msg ''EOF'')"

definition blocking :: "int \<Rightarrow> bool" where
  "blocking statusCode = (statusCode = 403 \<or> statusCode = 429 \<or> statusCode = 503)"

text \<open>What the handler does when it retries: the proxy that was used, if any, is
  evicted, then the request is queued again.\<close>

definition evict_retry :: "string \<Rightarrow> action list" where
  "evict_retry proxyURL = (if proxyURL \<noteq> [] then [Evict proxyURL] else []) @ [Retry]"

section \<open>Asynchronous refreshes\<close>

text \<open>
  Every \<open>go pm.asyncRefresh()\<close> starts a goroutine; the caller goes on at once.  A
  goroutine is at one of these places of \<open>asyncRefresh\<close>:
  \<^item> \<open>AtLock\<close>: before \<open>pm.refreshLock.Lock()\<close>;
  \<^item> \<open>AtCheck\<close>: holding the lock, before the test of \<open>pm.isRefreshing\<close>;
  \<^item> \<open>AtFetch\<close>: the flag set, before the call of \<open>fetchProxies\<close>;
  \<^item> \<open>InFlight\<close>: inside \<open>fetchProxies\<close>, the request to the supplier under way;
  \<^item> \<open>AtDefer\<close>: \<open>fetchProxies\<close> has returned, the deferred calls are pending;
  \<^item> \<open>Skipped\<close>: returned early because the flag was set (the lock released);
  \<^item> \<open>Fetched\<close>: returned after the fetch (the flag reset, the lock released).
\<close>

datatype pc = AtLock | AtCheck | AtFetch | InFlight | AtDefer | Skipped | Fetched

text \<open>The pool, the holder of \<open>refreshLock\<close> if it is held, and the goroutines.\<close>

record conc = world +
  refreshLock :: "nat option"
  routines :: "pc list"

text \<open>\<open>go pm.asyncRefresh()\<close>.\<close>

definition spawn :: "'a conc_scheme \<Rightarrow> 'a conc_scheme" where
  "spawn s = s\<lparr>routines := routines s @ [AtLock]\<rparr>"

text \<open>
  One step of goroutine \<open>g\<close>.  \<open>Lock\<close> succeeds only on a free mutex; a goroutine
  that cannot move, or has returned, leaves the state as it is.  The request of
  \<open>fetchProxies\<close> is counted, and the pool written, when \<open>fetchProxies\<close> returns.
  The deferred calls run in reverse order: the flag is reset, then the mutex released.
\<close>

definition step :: "'u env \<Rightarrow> nat \<Rightarrow> conc \<Rightarrow> conc" where
  "step e g s =
     (if length (routines s) \<le> g then s
      else (case routines s ! g of
              AtLock \<Rightarrow>
                (if refreshLock s = None
                 then s\<lparr>refreshLock := Some g, routines := (routines s)[g := AtCheck]\<rparr>
                 else s)
            | AtCheck \<Rightarrow>
                (if isRefreshing (pm s)
                 then s\<lparr>refreshLock := None, routines := (routines s)[g := Skipped]\<rparr>
                 else s\<lparr>pm := (pm s)\<lparr>isRefreshing := True\<rparr>,
                        routines := (routines s)[g := AtFetch]\<rparr>)
            | AtFetch \<Rightarrow> s\<lparr>routines := (routines s)[g := InFlight]\<rparr>
            | InFlight \<Rightarrow>
                (let w1 = snd (fetchProxies e \<lparr>pm = pm s, calls = calls s\<rparr>)
                 in s\<lparr>pm := pm w1, calls := calls w1, routines := (routines s)[g := AtDefer]\<rparr>)
            | AtDefer \<Rightarrow>
                s\<lparr>pm := (pm s)\<lparr>isRefreshing := False\<rparr>, refreshLock := None,
                  routines := (routines s)[g := Fetched]\<rparr>
            | Skipped \<Rightarrow> s
            | Fetched \<Rightarrow> s))"

text \<open>A schedule: a trigger (\<open>Go\<close>) or a step of goroutine \<open>g\<close> (\<open>Run g\<close>).\<close>

datatype event = Go | Run nat

fun run :: "'u env \<Rightarrow> event list \<Rightarrow> conc \<Rightarrow> conc" where
  "run e [] s = s"
| "run e (Go # evs) s = run e evs (spawn s)"
| "run e (Run g # evs) s = run e evs (step e g s)"

definition conc0 :: conc where
  "conc0 = \<lparr>pm = \<lparr>apiURL = ''http://supplier/get'', minThreshold = 5,
                    proxies = [''http://1.1.1.1:80''], currentIndex = 0, isRefreshing = False\<rparr>,
             calls = 0, refreshLock = None, routines = []\<rparr>"

text \<open>The refresh of the first goroutine is under way when the second trigger
  arrives; both goroutines then run to their return.\<close>

definition two_triggers :: "event list" where
  "two_triggers =
     [Go, Run 0, Run 0, Run 0, Go, Run 1, Run 0, Run 0, Run 1, Run 1, Run 1, Run 1, Run 1]"

text \<open>
  The lock and the flag in step: a goroutine holds the lock exactly when it is
  between \<open>AtCheck\<close> and \<open>AtDefer\<close>, the flag is up exactly when some goroutine
  is between \<open>AtFetch\<close> and \<open>AtDefer\<close>, and no goroutine has returned early.
\<close>

definition holding :: "pc \<Rightarrow> bool" where
  "holding p = (p = AtCheck \<or> p = AtFetch \<or> p = InFlight \<or> p = AtDefer)"

definition flagged :: "pc \<Rightarrow> bool" where
  "flagged p = (p = AtFetch \<or> p = InFlight \<or> p = AtDefer)"

definition refresh_inv :: "conc \<Rightarrow> bool" where
  "refresh_inv s =
     ((\<forall>g < length (routines s). holding (routines s ! g) = (refreshLock s = Some g))
      \<and> (\<forall>g. refreshLock s = Some g \<longrightarrow> g < length (routines s))
      \<and> (isRefreshing (pm s) = (\<exists>g < length (routines s). flagged (routines s ! g)))
      \<and> Skipped \<notin> set (routines s))"

text \<open>The number of goroutines whose \<open>fetchProxies\<close> has returned.\<close>

definition fetched :: "pc list \<Rightarrow> nat" where
  "fetched rs = length (filter (\<lambda>p. p = AtDefer \<or> p = Fetched) rs)"

text \<open>All goroutines have returned.\<close>

definition quiescent :: "pc list \<Rightarrow> bool" where
  "quiescent rs = (\<forall>p \<in> set rs. p = Skipped \<or> p = Fetched)"

text \<open>A pool on which no \<open>asyncRefresh\<close> has been started yet.\<close>

definition idle :: "conc \<Rightarrow> bool" where
  "idle s = (routines s = [] \<and> refreshLock s = None \<and> \<not> isRefreshing (pm s))"

section \<open>Lemmas about the pool\<close>

lemma first_match_None: "(first_match k xs u = None) = (u \<notin> set xs)"
  by (induction xs arbitrary: k) auto

lemma first_match_Some:
  "first_match k xs u = Some i \<Longrightarrow>
     k \<le> i \<and> i - k < length xs \<and> xs ! (i - k) = u \<and> u \<notin> set (take (i - k) xs)"
proof (induction xs arbitrary: k)
  case Nil
  then show ?case by simp
next
  case (Cons x xs)
  show ?case
  proof (cases "x = u")
    case True
    with Cons.prems show ?thesis by simp
  next
    case False
    with Cons.prems have "first_match (Suc k) xs u = Some i" by simp
    from Cons.IH [OF this] False show ?thesis
      by (auto simp: Suc_diff_le nth_Cons' take_Cons' split: if_splits)
  qed
qed

lemma smod_nonneg: "0 \<le> a \<Longrightarrow> 0 < b \<Longrightarrow> (a::int) smod b = a mod b"
  by (simp add: signed_modulo_int_def sgn_if)

lemma select_proxy_valid:
  "cursor_valid (pm w) \<Longrightarrow> cursor_valid (pm (snd (select_proxy e w)))"
  by (auto simp: select_proxy_def cursor_valid_def Let_def smod_nonneg split: option.splits)

lemma fetchProxies_valid:
  "cursor_valid (pm w) \<Longrightarrow> cursor_valid (pm (snd (fetchProxies e w)))"
  by (auto simp: fetchProxies_def cursor_valid_def Let_def split: reply.splits option.splits)

lemma GetProxy_valid:
  "cursor_valid (pm w) \<Longrightarrow> cursor_valid (pm (fst (snd (GetProxy e w))))"
  using select_proxy_valid [of w e] fetchProxies_valid [of w e]
    select_proxy_valid [of "snd (fetchProxies e w)" e]
  by (auto simp: GetProxy_def Let_def split: prod.splits option.splits)

lemma RemoveProxy_valid:
  "cursor_valid (pm w) \<Longrightarrow> cursor_valid (pm (fst (RemoveProxy u w)))"
  by (auto simp: RemoveProxy_def cursor_valid_def Let_def split: option.splits dest!: first_match_Some)

lemma asyncRefresh_valid:
  "cursor_valid (pm w) \<Longrightarrow> cursor_valid (pm (asyncRefresh e w))"
  using fetchProxies_valid [of "w\<lparr>pm := (pm w)\<lparr>isRefreshing := True\<rparr>\<rparr>" e]
  by (auto simp: asyncRefresh_def cursor_valid_def Let_def)

lemma NewProxyManager_valid: "cursor_valid (pm (NewProxyManager e n url t))"
  unfolding NewProxyManager_def
  by (rule fetchProxies_valid) (simp add: cursor_valid_def)

lemma select_proxy_in_range:
  assumes "0 \<le> currentIndex (pm w)" "currentIndex (pm w) < int (length (proxies (pm w)))"
  shows "select_proxy e w =
           (returned e (proxies (pm w) ! nat (currentIndex (pm w))),
            w\<lparr>pm := (pm w)\<lparr>currentIndex := (currentIndex (pm w) + 1) mod int (length (proxies (pm w)))\<rparr>\<rparr>)"
  using assms
  by (auto simp: select_proxy_def returned_def Let_def smod_nonneg split: option.splits)

lemma GetProxy_in_range:
  assumes "0 \<le> currentIndex (pm w)" "currentIndex (pm w) < int (length (proxies (pm w)))"
  shows "GetProxy e w =
           (returned e (proxies (pm w) ! nat (currentIndex (pm w))),
            w\<lparr>pm := (pm w)\<lparr>currentIndex := (currentIndex (pm w) + 1) mod int (length (proxies (pm w)))\<rparr>\<rparr>,
            int (length (proxies (pm w))) < minThreshold (pm w))"
  using assms select_proxy_in_range [OF assms, of e]
  by (auto simp: GetProxy_def Let_def)

lemma GetProxy_times_cycle:
  assumes "0 \<le> currentIndex (pm w)" "currentIndex (pm w) < int (length (proxies (pm w)))"
  shows "GetProxy_times e k w =
           (map (\<lambda>j. returned e (proxies (pm w) ! ((nat (currentIndex (pm w)) + j) mod length (proxies (pm w))))) [0..<k],
            w\<lparr>pm := (pm w)\<lparr>currentIndex := (currentIndex (pm w) + int k) mod int (length (proxies (pm w)))\<rparr>\<rparr>)"
  using assms
proof (induction k arbitrary: w)
  case 0
  then show ?case by simp
next
  case (Suc k)
  let ?xs = "proxies (pm w)"
  let ?n = "length ?xs"
  let ?c = "currentIndex (pm w)"
  let ?w1 = "w\<lparr>pm := (pm w)\<lparr>currentIndex := (?c + 1) mod int ?n\<rparr>\<rparr>"
  have npos: "0 < ?n" using Suc.prems by auto
  have step: "GetProxy e w = (returned e (?xs ! nat ?c), ?w1, int ?n < minThreshold (pm w))"
    by (rule GetProxy_in_range) (use Suc.prems in auto)
  have c1: "0 \<le> currentIndex (pm ?w1)" "currentIndex (pm ?w1) < int (length (proxies (pm ?w1)))"
    using npos by auto
  have natc1: "nat ((?c + 1) mod int ?n) = Suc (nat ?c) mod ?n"
    using Suc.prems(1) npos
    by (simp add: nat_mod_distrib nat_add_distrib)
  have idx: "\<And>j. (Suc (nat ?c) mod ?n + j) mod ?n = Suc (nat ?c + j) mod ?n"
    by (simp add: mod_add_left_eq)
  have cur: "((?c + 1) mod int ?n + int k) mod int ?n = (?c + int (Suc k)) mod int ?n"
  proof -
    have "((?c + 1) mod int ?n + int k) mod int ?n = ((?c + 1) + int k) mod int ?n"
      by (rule mod_add_left_eq)
    then show ?thesis by (simp add: algebra_simps)
  qed
  have upt: "[0..<Suc k] = 0 # map Suc [0..<k]"
    by (simp add: upt_conv_Cons map_Suc_upt del: upt_Suc)
  have small: "nat ?c mod ?n = nat ?c" using Suc.prems by simp
  have rest: "GetProxy_times e k ?w1 =
      (map (\<lambda>j. returned e (?xs ! ((nat ?c + Suc j) mod ?n))) [0..<k],
       w\<lparr>pm := (pm w)\<lparr>currentIndex := (?c + int (Suc k)) mod int ?n\<rparr>\<rparr>)"
    using Suc.IH [OF c1] by (simp add: natc1 idx cur del: of_nat_Suc)
  have "GetProxy_times e (Suc k) w =
      (returned e (?xs ! nat ?c) # map (\<lambda>j. returned e (?xs ! ((nat ?c + Suc j) mod ?n))) [0..<k],
       w\<lparr>pm := (pm w)\<lparr>currentIndex := (?c + int (Suc k)) mod int ?n\<rparr>\<rparr>)"
    by (simp only: GetProxy_times.simps step rest Let_def prod.case)
  also have "returned e (?xs ! nat ?c) # map (\<lambda>j. returned e (?xs ! ((nat ?c + Suc j) mod ?n))) [0..<k]
      = map (\<lambda>j. returned e (?xs ! ((nat ?c + j) mod ?n))) [0..<Suc k]"
    unfolding upt by (simp add: o_def small)
  finally show ?case .
qed

lemma rotate_as_map:
  assumes "xs \<noteq> []"
  shows "rotate c xs = map (\<lambda>j. xs ! ((c + j) mod length xs)) [0..<length xs]"
  by (rule nth_equalityI) (simp_all add: nth_rotate)

lemma HasPrefix_append: "HasPrefix (p @ s) p"
  by (simp add: HasPrefix_def)

lemma formatProxy_http: "http_prefixed (formatProxy e raw)"
  unfolding formatProxy_def http_prefixed_def Let_def
  using HasPrefix_append [of "''http://''"] by auto

lemma parse_lines_http:
  "\<forall>a \<in> set acc. http_prefixed a \<Longrightarrow> \<forall>a \<in> set (parse_lines e ls acc). http_prefixed a"
proof (induction ls arbitrary: acc)
  case Nil
  then show ?case by simp
next
  case (Cons l ls)
  have "\<forall>a \<in> set (acc @ [formatProxy e (ReplaceAll_CR (trim e l))]). http_prefixed a"
    using Cons.prems formatProxy_http by auto
  from Cons.IH [OF this] Cons.IH [OF Cons.prems] show ?case
    by (simp add: Let_def)
qed

lemma parse_body_http: "\<forall>a \<in> set (parse_body e body). http_prefixed a"
  unfolding parse_body_def by (rule parse_lines_http) simp

lemma fetchProxies_http: "all_http (pm w) \<Longrightarrow> all_http (pm (snd (fetchProxies e w)))"
  using parse_body_http
  by (auto simp: fetchProxies_def all_http_def Let_def split: reply.splits option.splits)

lemma select_proxy_pool: "proxies (pm (snd (select_proxy e w))) = proxies (pm w)"
  by (auto simp: select_proxy_def Let_def split: option.splits)

lemma select_proxy_returns:
  "fst (select_proxy e w) = Inr u \<Longrightarrow> \<exists>a \<in> set (proxies (pm w)). url_Parse e a = Some u"
  by (auto simp: select_proxy_def Let_def split: option.splits if_splits)

lemma GetProxy_http: "all_http (pm w) \<Longrightarrow> all_http (pm (fst (snd (GetProxy e w))))"
  using fetchProxies_http [of w e] select_proxy_pool [of e w]
    select_proxy_pool [of e "snd (fetchProxies e w)"]
  by (auto simp: GetProxy_def Let_def all_http_def split: prod.splits option.splits)

lemma GetProxy_returns:
  "fst (GetProxy e w) = Inr u \<Longrightarrow>
     \<exists>a \<in> set (proxies (pm (fst (snd (GetProxy e w))))). url_Parse e a = Some u"
  using select_proxy_returns [of e w u] select_proxy_pool [of e w]
    select_proxy_returns [of e "snd (fetchProxies e w)" u]
    select_proxy_pool [of e "snd (fetchProxies e w)"]
  by (auto simp: GetProxy_def Let_def split: prod.splits option.splits if_splits)

lemma RemoveProxy_subset:
  "set (proxies (pm (fst (RemoveProxy u w)))) \<subseteq> set (proxies (pm w))"
  by (auto simp: RemoveProxy_def Let_def split: option.splits dest: in_set_takeD in_set_dropD)

lemma RemoveProxy_http: "all_http (pm w) \<Longrightarrow> all_http (pm (fst (RemoveProxy u w)))"
  using RemoveProxy_subset [of u w] by (auto simp: all_http_def)

lemma asyncRefresh_http: "all_http (pm w) \<Longrightarrow> all_http (pm (asyncRefresh e w))"
  using fetchProxies_http [of "w\<lparr>pm := (pm w)\<lparr>isRefreshing := True\<rparr>\<rparr>" e]
  by (auto simp: asyncRefresh_def all_http_def Let_def)

lemma NewProxyManager_http: "all_http (pm (NewProxyManager e n url t))"
  unfolding NewProxyManager_def
  by (rule fetchProxies_http) (simp add: all_http_def)

lemma select_proxy_calls: "calls (snd (select_proxy e w)) = calls w"
  by (auto simp: select_proxy_def Let_def split: option.splits)

lemma select_proxy_first:
  assumes "proxies (pm w) \<noteq> []" "currentIndex (pm w) = 0"
  shows "fst (select_proxy e w) = returned e (hd (proxies (pm w)))"
proof -
  have "0 \<le> currentIndex (pm w)" "currentIndex (pm w) < int (length (proxies (pm w)))"
    using assms by simp_all
  from select_proxy_in_range [OF this, of e] assms show ?thesis
    by (simp add: hd_conv_nth)
qed

lemma fetchProxies_calls: "calls (snd (fetchProxies e w)) = calls w + 1"
  by (auto simp: fetchProxies_def Let_def split: reply.splits option.splits)

lemma fetchProxies_cursor:
  "fst (fetchProxies e w) = None \<Longrightarrow> currentIndex (pm (snd (fetchProxies e w))) = 0"
  by (auto simp: fetchProxies_def Let_def split: reply.splits option.splits if_splits)

lemma fetchProxies_failed_pool:
  "fst (fetchProxies e w) = Some err \<Longrightarrow> pm (snd (fetchProxies e w)) = pm w"
  by (auto simp: fetchProxies_def Let_def split: reply.splits option.splits if_splits)

section \<open>Round-robin selection\<close>

text \<open>
  Claim C1, as amended.  Take a pool of \<open>N\<close> distinct addresses whose cursor is
  valid, and call \<open>GetProxy\<close> \<open>N\<close> times with no eviction and no refresh in
  between.  The calls pick the addresses in the order of the last load, read
  cyclically from the cursor (\<open>rotate\<close>): every address once, none twice.  From
  cursor 0, where a load leaves it, this is the list itself.  After \<open>k\<close> calls the
  cursor has advanced by \<open>k\<close> modulo \<open>N\<close>, so that the whole state is the initial
  one again after \<open>N\<close> calls; no request went to the supplier.  Each call returns
  the parsed address, or the error of \<open>url.Parse\<close> for an address it rejects.
\<close>

theorem GetProxy_round_robin:
  assumes "distinct (proxies (pm w))" and "cursor_valid (pm w)"
  shows "GetProxy_times e (length (proxies (pm w))) w =
           (map (returned e) (rotate (nat (currentIndex (pm w))) (proxies (pm w))), w)
         \<and> distinct (rotate (nat (currentIndex (pm w))) (proxies (pm w)))
         \<and> set (rotate (nat (currentIndex (pm w))) (proxies (pm w))) = set (proxies (pm w))
         \<and> (currentIndex (pm w) = 0 \<longrightarrow>
              fst (GetProxy_times e (length (proxies (pm w))) w) = map (returned e) (proxies (pm w)))
         \<and> (proxies (pm w) \<noteq> [] \<longrightarrow>
              (\<forall>k. currentIndex (pm (snd (GetProxy_times e k w))) =
                     (currentIndex (pm w) + int k) mod int (length (proxies (pm w)))))"
proof (cases "proxies (pm w) = []")
  case True
  then show ?thesis by simp
next
  case False
  let ?xs = "proxies (pm w)"
  let ?c = "currentIndex (pm w)"
  from False assms(2) have c: "0 \<le> ?c" "?c < int (length ?xs)"
    by (simp_all add: cursor_valid_def)
  have wrap: "(?c + int (length ?xs)) mod int (length ?xs) = ?c"
    using c by simp
  have run: "GetProxy_times e (length ?xs) w = (map (returned e) (rotate (nat ?c) ?xs), w)"
    using c by (simp add: GetProxy_times_cycle [OF c] rotate_as_map [OF False] o_def)
  have cur: "\<forall>k. currentIndex (pm (snd (GetProxy_times e k w))) = (?c + int k) mod int (length ?xs)"
    by (simp add: GetProxy_times_cycle [OF c])
  from run cur assms(1) show ?thesis by simp
qed

theorem GetProxy_round_robin_witness:
  "GetProxy_times env0 3 pool3 =
     ([Inr ''http://2.2.2.2:80'', Inr ''http://3.3.3.3:80'', Inr ''http://1.1.1.1:80''], pool3)
   \<and> fst (GetProxy_times env0 2 loaded2) = [Inr ''http://1.1.1.1:80'', Inr ''http://2.2.2.2:80'']"
proof -
  have d: "distinct (proxies (pm pool3))" by (simp add: pool3_def)
  have v: "cursor_valid (pm pool3)" by (simp add: pool3_def cursor_valid_def)
  have len: "length (proxies (pm pool3)) = 3" by (simp add: pool3_def)
  have sel: "map (returned env0) (rotate (nat (currentIndex (pm pool3))) (proxies (pm pool3)))
        = [Inr ''http://2.2.2.2:80'', Inr ''http://3.3.3.3:80'', Inr ''http://1.1.1.1:80'']"
    by (simp add: pool3_def returned_def env0_def)
  from GetProxy_round_robin [OF d v, of env0] have
    "GetProxy_times env0 (length (proxies (pm pool3))) pool3 =
       (map (returned env0) (rotate (nat (currentIndex (pm pool3))) (proxies (pm pool3))), pool3)"
    by (rule conjunct1)
  then have first: "GetProxy_times env0 3 pool3 =
     ([Inr ''http://2.2.2.2:80'', Inr ''http://3.3.3.3:80'', Inr ''http://1.1.1.1:80''], pool3)"
    unfolding len sel .
  have d2: "distinct (proxies (pm loaded2))" by (simp add: loaded2_def pool2_def)
  have v2: "cursor_valid (pm loaded2)" by (simp add: loaded2_def pool2_def cursor_valid_def)
  have c2: "currentIndex (pm loaded2) = 0" by (simp add: loaded2_def)
  have len2: "length (proxies (pm loaded2)) = 2" by (simp add: loaded2_def pool2_def)
  have sel2: "map (returned env0) (proxies (pm loaded2))
        = [Inr ''http://1.1.1.1:80'', Inr ''http://2.2.2.2:80'']"
    by (simp add: loaded2_def pool2_def returned_def env0_def)
  from GetProxy_round_robin [OF d2 v2, of env0] c2 have
    "fst (GetProxy_times env0 (length (proxies (pm loaded2))) loaded2)
       = map (returned env0) (proxies (pm loaded2))"
    by blast
  then have second: "fst (GetProxy_times env0 2 loaded2)
       = [Inr ''http://1.1.1.1:80'', Inr ''http://2.2.2.2:80'']"
    unfolding len2 sel2 .
  from first second show ?thesis by (rule conjI)
qed

text \<open>One \<open>GetProxy\<close> after a load of two addresses leaves the cursor at 1; the
  next two calls return the second address before the first.\<close>

lemma smod_eval: "(2::int) smod 2 = 0" "(1::int) smod 2 = 1"
  by (simp_all add: signed_modulo_int_def)

theorem GetProxy_order_counterexample:
  "GetProxy env0 loaded2 = (Inr ''http://1.1.1.1:80'', pool2, False)
   \<and> GetProxy_times env0 2 pool2
       = ([Inr ''http://2.2.2.2:80'', Inr ''http://1.1.1.1:80''], pool2)
   \<and> fst (GetProxy_times env0 2 pool2) \<noteq> map Inr (proxies (pm pool2))"
proof -
  have 0: "GetProxy env0 loaded2 = (Inr ''http://1.1.1.1:80'', pool2, False)"
    by (simp add: GetProxy_def select_proxy_def loaded2_def pool2_def env0_def Let_def smod_eval)
  have 1: "GetProxy env0 pool2 = (Inr ''http://2.2.2.2:80'', loaded2, False)"
    by (simp add: GetProxy_def select_proxy_def loaded2_def pool2_def env0_def Let_def smod_eval)
  have "GetProxy_times env0 (Suc (Suc 0)) pool2
       = ([Inr ''http://2.2.2.2:80'', Inr ''http://1.1.1.1:80''], pool2)"
    by (simp add: 0 1)
  then have 2: "GetProxy_times env0 2 pool2
       = ([Inr ''http://2.2.2.2:80'', Inr ''http://1.1.1.1:80''], pool2)"
    by (simp add: numeral_2_eq_2)
  have 3: "map Inr (proxies (pm pool2)) = [Inr ''http://1.1.1.1:80'', Inr ''http://2.2.2.2:80'']"
    by (simp add: pool2_def)
  show ?thesis by (simp add: 0 2 3)
qed

section \<open>Eviction\<close>

text \<open>
  Claim C9.  \<open>RemoveProxy\<close> of an address that is not in the pool changes nothing:
  the addresses, the cursor and every other field stay, and no refresh is started.
  For an address that is in the pool, the first occurrence is cut out and nothing
  else: the new list is the old one without that one element.
\<close>

theorem RemoveProxy_absent_or_first:
  "(proxyURL \<notin> set (proxies (pm w)) \<longrightarrow> RemoveProxy proxyURL w = (w, False))
   \<and> (proxyURL \<in> set (proxies (pm w)) \<longrightarrow>
        (\<exists>before after.
            proxies (pm w) = before @ proxyURL # after \<and> proxyURL \<notin> set before \<and>
            proxies (pm (fst (RemoveProxy proxyURL w))) = before @ after)
        \<and> proxies (pm (fst (RemoveProxy proxyURL w))) = remove1 proxyURL (proxies (pm w)))"
proof (cases "first_match 0 (proxies (pm w)) proxyURL")
  case None
  then have "proxyURL \<notin> set (proxies (pm w))"
    by (simp add: first_match_None)
  with None show ?thesis
    by (simp add: RemoveProxy_def)
next
  case (Some i)
  let ?xs = "proxies (pm w)"
  from first_match_Some [OF Some]
  have i: "i < length ?xs" "?xs ! i = proxyURL" "proxyURL \<notin> set (take i ?xs)" by simp_all
  have split: "?xs = take i ?xs @ proxyURL # drop (Suc i) ?xs"
    using id_take_nth_drop [OF i(1)] i(2) by simp
  have new: "proxies (pm (fst (RemoveProxy proxyURL w))) = take i ?xs @ drop (Suc i) ?xs"
    using Some by (simp add: RemoveProxy_def Let_def)
  have "remove1 proxyURL ?xs = remove1 proxyURL (take i ?xs @ proxyURL # drop (Suc i) ?xs)"
    using split by simp
  also have "\<dots> = take i ?xs @ drop (Suc i) ?xs"
    using i(3) by (simp add: remove1_append)
  finally have r1: "remove1 proxyURL ?xs = take i ?xs @ drop (Suc i) ?xs" .
  have inset: "proxyURL \<in> set ?xs" using i by (metis nth_mem)
  have ex: "\<exists>before after.
            ?xs = before @ proxyURL # after \<and> proxyURL \<notin> set before \<and>
            proxies (pm (fst (RemoveProxy proxyURL w))) = before @ after"
  proof (intro exI conjI)
    show "?xs = take i ?xs @ proxyURL # drop (Suc i) ?xs" by (rule split)
    show "proxyURL \<notin> set (take i ?xs)" by (rule i(3))
    show "proxies (pm (fst (RemoveProxy proxyURL w))) = take i ?xs @ drop (Suc i) ?xs"
      by (rule new)
  qed
  have eq: "proxies (pm (fst (RemoveProxy proxyURL w))) = remove1 proxyURL ?xs"
    using new r1 by simp
  show ?thesis using inset ex eq by blast
qed

theorem RemoveProxy_absent_or_first_witness:
  "RemoveProxy ''http://9.9.9.9:80'' pool3 = (pool3, False)
   \<and> proxies (pm (fst (RemoveProxy ''http://2.2.2.2:80'' pool3))) =
       [''http://1.1.1.1:80'', ''http://3.3.3.3:80'']"
  using RemoveProxy_absent_or_first [of "''http://9.9.9.9:80''" pool3]
    RemoveProxy_absent_or_first [of "''http://2.2.2.2:80''" pool3]
  by (simp add: pool3_def)

section \<open>The cursor stays valid\<close>

text \<open>
  Claim C5.  The cursor is never negative and, while the pool is not empty, below its
  length: \<open>NewProxyManager\<close> establishes this, and \<open>fetchProxies\<close>,
  \<open>asyncRefresh\<close>, \<open>RemoveProxy\<close> and \<open>GetProxy\<close> preserve it.  When
  \<open>RemoveProxy\<close> shortens a list of two or more addresses and the cursor would
  point past the new end, the cursor becomes 0.
\<close>

theorem cursor_invariant:
  "cursor_valid (pm (NewProxyManager e n url t))
   \<and> (cursor_valid (pm w) \<longrightarrow>
        cursor_valid (pm (snd (fetchProxies e w)))
        \<and> cursor_valid (pm (asyncRefresh e w))
        \<and> cursor_valid (pm (fst (RemoveProxy proxyURL w)))
        \<and> cursor_valid (pm (fst (snd (GetProxy e w)))))
   \<and> (proxyURL \<in> set (proxies (pm w)) \<and> 1 < length (proxies (pm w))
        \<and> int (length (proxies (pm w))) - 1 \<le> currentIndex (pm w) \<longrightarrow>
        currentIndex (pm (fst (RemoveProxy proxyURL w))) = 0)"
proof -
  have reset: "currentIndex (pm (fst (RemoveProxy proxyURL w))) = 0"
    if "proxyURL \<in> set (proxies (pm w))" "1 < length (proxies (pm w))"
       "int (length (proxies (pm w))) - 1 \<le> currentIndex (pm w)"
  proof -
    from that(1) obtain i where i: "first_match 0 (proxies (pm w)) proxyURL = Some i"
      using first_match_None [of 0 "proxies (pm w)" proxyURL] by auto
    from first_match_Some [OF i] have il: "i < length (proxies (pm w))" by simp
    define ps where "ps = take i (proxies (pm w)) @ drop (i + 1) (proxies (pm w))"
    have n: "int (length ps) = int (length (proxies (pm w))) - 1"
      using il by (simp add: ps_def min_def)
    have "RemoveProxy proxyURL w =
        (w\<lparr>pm := (pm w)\<lparr>proxies := ps,
            currentIndex := (if int (length ps) \<le> currentIndex (pm w) \<and> 0 < int (length ps)
                             then 0 else currentIndex (pm w))\<rparr>\<rparr>,
         int (length ps) < minThreshold (pm w))"
      by (simp only: RemoveProxy_def Let_def i option.case ps_def)
    then show ?thesis using n that(2,3) by simp
  qed
  show ?thesis
    by (intro conjI impI NewProxyManager_valid fetchProxies_valid asyncRefresh_valid
        RemoveProxy_valid GetProxy_valid reset) simp_all
qed

lemma parse_body_env_reply: "parse_body (env_reply r) body = parse_body env0 body"
proof -
  have t: "trim (env_reply r) = trim env0"
    by (rule ext) (simp add: trim_def env_reply_def)
  have f: "formatProxy (env_reply r) = formatProxy env0"
    by (rule ext) (simp add: formatProxy_def t)
  have "parse_lines (env_reply r) ls acc = parse_lines env0 ls acc" for ls acc
    by (induction ls arbitrary: acc) (simp_all add: t f Let_def)
  then show ?thesis by (simp add: parse_body_def)
qed

lemma supplier_env_reply: "supplier (env_reply r) n = r"
  by (simp add: env_reply_def)

lemma url_Parse_env_reply: "url_Parse (env_reply r) a = Some a"
  by (simp add: env_reply_def env0_def)

lemma parse_body_one: "parse_body env0 ''4.4.4.4:80'' = [''http://4.4.4.4:80'']"
  by (simp add: parse_body_def env0_def trim_def formatProxy_def RuneSelf_def asciiSpace_def
      ReplaceAll_CR_def HasPrefix_def Let_def)

lemma parse_body_none: "parse_body env0 [] = []"
  by (simp add: parse_body_def env0_def trim_def ReplaceAll_CR_def)

theorem cursor_invariant_witness:
  "cursor_valid (pm pool3)
   \<and> cursor_valid (pm (fst (snd (GetProxy env0 pool3))))
   \<and> currentIndex (pm (fst (RemoveProxy ''http://1.1.1.1:80''
        (pool3\<lparr>pm := (pm pool3)\<lparr>currentIndex := 2\<rparr>\<rparr>)))) = 0"
proof -
  have v: "cursor_valid (pm pool3)" by (simp add: pool3_def cursor_valid_def)
  have h: "''http://1.1.1.1:80'' \<in> set (proxies (pm (pool3\<lparr>pm := (pm pool3)\<lparr>currentIndex := 2\<rparr>\<rparr>)))
      \<and> 1 < length (proxies (pm (pool3\<lparr>pm := (pm pool3)\<lparr>currentIndex := 2\<rparr>\<rparr>)))
      \<and> int (length (proxies (pm (pool3\<lparr>pm := (pm pool3)\<lparr>currentIndex := 2\<rparr>\<rparr>)))) - 1
          \<le> currentIndex (pm (pool3\<lparr>pm := (pm pool3)\<lparr>currentIndex := 2\<rparr>\<rparr>))"
    by (simp add: pool3_def)
  show ?thesis
    using v h cursor_invariant [of env0 0 "[]" 0 pool3 "''http://1.1.1.1:80''"]
      cursor_invariant [of env0 0 "[]" 0 "pool3\<lparr>pm := (pm pool3)\<lparr>currentIndex := 2\<rparr>\<rparr>" "''http://1.1.1.1:80''"]
    by blast
qed

section \<open>Every address of the pool starts with a scheme\<close>

lemma HasPrefix_split: "HasPrefix a p \<Longrightarrow> \<exists>t. a = p @ t"
  unfolding HasPrefix_def by (metis append_take_drop_id)

lemma getScheme_http:
  assumes "HasPrefix a ''http://''"
  shows "getScheme a = Some (''http'', drop 5 a)"
proof -
  from HasPrefix_split [OF assms] obtain t where "a = ''http://'' @ t" ..
  then show ?thesis
    by (simp add: getScheme_def is_alpha_def is_scheme_sign_def)
qed

lemma getScheme_https:
  assumes "HasPrefix a ''https://''"
  shows "getScheme a = Some (''https'', drop 6 a)"
proof -
  from HasPrefix_split [OF assms] obtain t where "a = ''https://'' @ t" ..
  then show ?thesis
    by (simp add: getScheme_def is_alpha_def is_scheme_sign_def)
qed

lemma getScheme_prefixed:
  "http_prefixed a \<Longrightarrow> (\<exists>rest. getScheme a = Some (''http'', rest) \<or> getScheme a = Some (''https'', rest))"
  using getScheme_http getScheme_https by (auto simp: http_prefixed_def)

text \<open>
  Claim C10.  Every address in the pool begins with \<open>http://\<close> or \<open>https://\<close>.
  The pool of \<open>NewProxyManager\<close> has the property; whatever \<open>fetchProxies\<close>
  parses out of a body has it, since each entry is an output of \<open>formatProxy\<close>;
  \<open>fetchProxies\<close>, \<open>asyncRefresh\<close>, \<open>RemoveProxy\<close> and \<open>GetProxy\<close> preserve
  it.  So the scheme that \<open>url.Parse\<close> reads from a pool entry is \<open>http\<close> or
  \<open>https\<close>, and a URL that \<open>GetProxy\<close> returns is the parse of such an entry.
\<close>

theorem pool_addresses_http:
  "all_http (pm (NewProxyManager e n url t))
   \<and> (\<forall>a \<in> set (parse_body e body). HasPrefix a ''http://'' \<or> HasPrefix a ''https://'')
   \<and> (all_http (pm w) \<longrightarrow>
        all_http (pm (snd (fetchProxies e w)))
        \<and> all_http (pm (asyncRefresh e w))
        \<and> all_http (pm (fst (RemoveProxy proxyURL w)))
        \<and> all_http (pm (fst (snd (GetProxy e w))))
        \<and> (\<forall>a \<in> set (proxies (pm w)).
              \<exists>rest. getScheme a = Some (''http'', rest) \<or> getScheme a = Some (''https'', rest))
        \<and> (\<forall>u. fst (GetProxy e w) = Inr u \<longrightarrow>
              (\<exists>a rest. url_Parse e a = Some u
                 \<and> (HasPrefix a ''http://'' \<or> HasPrefix a ''https://'')
                 \<and> (getScheme a = Some (''http'', rest) \<or> getScheme a = Some (''https'', rest)))))"
proof -
  have ret: "\<exists>a rest. url_Parse e a = Some u
      \<and> (HasPrefix a ''http://'' \<or> HasPrefix a ''https://'')
      \<and> (getScheme a = Some (''http'', rest) \<or> getScheme a = Some (''https'', rest))"
    if "all_http (pm w)" "fst (GetProxy e w) = Inr u" for u
  proof -
    from GetProxy_returns [OF that(2)] obtain a
      where a: "a \<in> set (proxies (pm (fst (snd (GetProxy e w)))))" "url_Parse e a = Some u"
      by blast
    from GetProxy_http [OF that(1), of e] a(1) have h: "http_prefixed a"
      by (simp add: all_http_def)
    from getScheme_prefixed [OF h] obtain rest
      where "getScheme a = Some (''http'', rest) \<or> getScheme a = Some (''https'', rest)" ..
    with a(2) h show ?thesis unfolding http_prefixed_def by blast
  qed
  have sch: "\<forall>a \<in> set (proxies (pm w)).
      \<exists>rest. getScheme a = Some (''http'', rest) \<or> getScheme a = Some (''https'', rest)"
    if "all_http (pm w)"
    using that getScheme_prefixed by (simp add: all_http_def)
  have pb: "\<forall>a \<in> set (parse_body e body). HasPrefix a ''http://'' \<or> HasPrefix a ''https://''"
    using parse_body_http [of e body] by (simp add: http_prefixed_def)
  show ?thesis
    by (intro conjI impI allI NewProxyManager_http fetchProxies_http asyncRefresh_http
        RemoveProxy_http GetProxy_http ret sch pb)
qed

theorem pool_addresses_http_witness:
  "all_http (pm pool3) \<and> all_http (pm (fst (RemoveProxy ''http://2.2.2.2:80'' pool3)))
   \<and> fst (GetProxy env0 pool3) = Inr ''http://2.2.2.2:80''
   \<and> (\<exists>a rest. url_Parse env0 a = Some ''http://2.2.2.2:80''
           \<and> (HasPrefix a ''http://'' \<or> HasPrefix a ''https://'')
           \<and> (getScheme a = Some (''http'', rest) \<or> getScheme a = Some (''https'', rest)))"
proof -
  have h: "all_http (pm pool3)"
    by (simp add: pool3_def all_http_def http_prefixed_def HasPrefix_def)
  have g: "fst (GetProxy env0 pool3) = Inr ''http://2.2.2.2:80''"
    by (simp add: GetProxy_def select_proxy_def pool3_def env0_def Let_def)
  from pool_addresses_http [of env0 0 "[]" 0 "[]" pool3 "''http://2.2.2.2:80''"] h g
  show ?thesis by blast
qed

section \<open>Replenishment\<close>

text \<open>
  Claim C3.  \<open>fetchProxies\<close> sends one request.  When the request fails, the status
  is not 200 or the body cannot be read, it returns an error and leaves the pool as
  it was: addresses, cursor and all.  When a body arrives with status 200 it returns
  no error, the addresses of the pool become those parsed from the body, whatever
  the pool held before, and the cursor becomes 0.
\<close>

theorem fetchProxies_atomic:
  "(fetch_failed (supplier e (calls w)) \<longrightarrow>
      fst (fetchProxies e w) \<noteq> None \<and> pm (snd (fetchProxies e w)) = pm w)
   \<and> (supplier e (calls w) = Resp 200 (Some body) \<longrightarrow>
      fst (fetchProxies e w) = None
      \<and> pm (snd (fetchProxies e w)) = (pm w)\<lparr>proxies := parse_body e body, currentIndex := 0\<rparr>)
   \<and> calls (snd (fetchProxies e w)) = calls w + 1"
  by (auto simp: fetchProxies_def fetch_failed_def Let_def split: reply.splits option.splits)

theorem fetchProxies_atomic_witness:
  "fetchProxies (env_reply (Resp 503 (Some ''4.4.4.4:80''))) pool3
      = (Some (BadStatus 503), pool3\<lparr>calls := 2\<rparr>)
   \<and> pm (snd (fetchProxies (env_reply (Resp 200 (Some ''4.4.4.4:80''))) pool3))
      = (pm pool3)\<lparr>proxies := [''http://4.4.4.4:80''], currentIndex := 0\<rparr>"
proof -
  have e: "fetchProxies (env_reply (Resp 503 (Some ''4.4.4.4:80''))) pool3
      = (Some (BadStatus 503), pool3\<lparr>calls := 2\<rparr>)"
    by (simp add: fetchProxies_def supplier_env_reply) (simp add: pool3_def)
  have "supplier (env_reply (Resp 200 (Some ''4.4.4.4:80''))) (calls pool3)
      = Resp 200 (Some ''4.4.4.4:80'')"
    by (rule supplier_env_reply)
  with fetchProxies_atomic [of "env_reply (Resp 200 (Some ''4.4.4.4:80''))" pool3 "''4.4.4.4:80''"]
  have "pm (snd (fetchProxies (env_reply (Resp 200 (Some ''4.4.4.4:80''))) pool3))
      = (pm pool3)\<lparr>proxies := parse_body (env_reply (Resp 200 (Some ''4.4.4.4:80''))) ''4.4.4.4:80'',
                     currentIndex := 0\<rparr>"
    by blast
  then show ?thesis using e by (simp add: parse_body_env_reply parse_body_one)
qed

text \<open>
  Claim C4.  \<open>GetProxy\<close> on an empty pool sends exactly one request to the supplier
  before it returns.  When that refresh fails, \<open>GetProxy\<close> returns an error and the
  pool is unchanged; when it succeeds with no address, \<open>GetProxy\<close> returns an error
  too; when it yields addresses, \<open>GetProxy\<close> goes on to the selection and returns
  what it returns for the first address of the new pool.
\<close>

theorem GetProxy_empty_pool:
  assumes "proxies (pm w) = []"
  shows "calls (fst (snd (GetProxy e w))) = calls w + 1
    \<and> (\<forall>err. fst (fetchProxies e w) = Some err \<longrightarrow>
          fst (GetProxy e w) = Inl (RefreshFailed err) \<and> pm (fst (snd (GetProxy e w))) = pm w)
    \<and> (fst (fetchProxies e w) = None \<and> proxies (pm (snd (fetchProxies e w))) = [] \<longrightarrow>
          fst (GetProxy e w) = Inl StillEmpty)
    \<and> (fst (fetchProxies e w) = None \<and> proxies (pm (snd (fetchProxies e w))) \<noteq> [] \<longrightarrow>
          fst (GetProxy e w) = returned e (hd (proxies (pm (snd (fetchProxies e w)))))
          \<and> proxies (pm (fst (snd (GetProxy e w)))) = proxies (pm (snd (fetchProxies e w))))"
proof (cases "fetchProxies e w")
  case (Pair r w1)
  have c1: "calls w1 = calls w + 1" using fetchProxies_calls [of e w] Pair by simp
  show ?thesis
  proof (cases r)
    case (Some err)
    with Pair assms c1 fetchProxies_failed_pool [of e w err] show ?thesis
      by (simp add: GetProxy_def)
  next
    case None
    show ?thesis
    proof (cases "proxies (pm w1) = []")
      case True
      with Pair None assms c1 show ?thesis by (simp add: GetProxy_def)
    next
      case False
      have cur: "currentIndex (pm w1) = 0" using fetchProxies_cursor [of e w] Pair None by simp
      obtain r2 w2 where sp: "select_proxy e w1 = (r2, w2)" by (cases "select_proxy e w1")
      have "r2 = returned e (hd (proxies (pm w1)))"
        using select_proxy_first [OF False cur, of e] sp by simp
      moreover have "calls w2 = calls w1" using select_proxy_calls [of e w1] sp by simp
      moreover have "proxies (pm w2) = proxies (pm w1)" using select_proxy_pool [of e w1] sp by simp
      ultimately show ?thesis
        using Pair None assms c1 False sp by (simp add: GetProxy_def Let_def)
    qed
  qed
qed

theorem GetProxy_empty_pool_witness:
  "fst (GetProxy (env_reply (Resp 200 (Some ''4.4.4.4:80''))) pool0) = Inr ''http://4.4.4.4:80''
   \<and> calls (fst (snd (GetProxy (env_reply (Resp 200 (Some ''4.4.4.4:80''))) pool0))) = 1
   \<and> fst (GetProxy (env_reply (Resp 200 (Some []))) pool0) = Inl StillEmpty
   \<and> fst (GetProxy (env_reply GetFailed) pool0) = Inl (RefreshFailed RequestFailed)"
proof -
  have p: "proxies (pm pool0) = []" by (simp add: pool0_def)
  have c: "calls pool0 = 0" by (simp add: pool0_def)
  have ok: "fetchProxies (env_reply (Resp 200 (Some ''4.4.4.4:80''))) pool0
      = (None, pool0\<lparr>calls := 1, pm := (pm pool0)\<lparr>proxies := [''http://4.4.4.4:80''], currentIndex := 0\<rparr>\<rparr>)"
    by (simp add: fetchProxies_def supplier_env_reply parse_body_env_reply parse_body_one c)
  have none: "fetchProxies (env_reply (Resp 200 (Some []))) pool0
      = (None, pool0\<lparr>calls := 1, pm := (pm pool0)\<lparr>proxies := [], currentIndex := 0\<rparr>\<rparr>)"
    by (simp add: fetchProxies_def supplier_env_reply parse_body_env_reply parse_body_none c)
  have bad: "fetchProxies (env_reply GetFailed) pool0 = (Some RequestFailed, pool0\<lparr>calls := 1\<rparr>)"
    by (simp add: fetchProxies_def supplier_env_reply c)
  show ?thesis
    using GetProxy_empty_pool [OF p, of "env_reply (Resp 200 (Some ''4.4.4.4:80''))"]
      GetProxy_empty_pool [OF p, of "env_reply (Resp 200 (Some []))"]
      GetProxy_empty_pool [OF p, of "env_reply GetFailed"]
    by (simp add: ok none bad c returned_def url_Parse_env_reply)
qed

section \<open>Parsing the supplier body\<close>

lemma TrimSpace_stop_ascii:
  "ascii r \<Longrightarrow> TrimSpace_stop trf r = rev (dropWhile asciiSpace r)"
  by (induction r) (simp_all add: ascii_def)

lemma TrimSpace_ascii: "ascii s \<Longrightarrow> TrimSpace tf trf s = ascii_trim s"
proof (induction s)
  case Nil
  then show ?case by (simp add: ascii_trim_def)
next
  case (Cons c cs)
  then have a: "\<not> RuneSelf c" "ascii cs" "ascii (rev (c # cs))"
    by (simp_all add: ascii_def)
  show ?case
  proof (cases "asciiSpace c")
    case True
    with Cons.IH a show ?thesis by (simp add: ascii_trim_def)
  next
    case False
    have "TrimSpace tf trf (c # cs) = TrimSpace_stop trf (rev (c # cs))"
      using a(1) False by simp
    also have "\<dots> = rev (dropWhile asciiSpace (rev (c # cs)))"
      by (rule TrimSpace_stop_ascii [OF a(3)])
    also have "\<dots> = ascii_trim (c # cs)"
      using False by (simp add: ascii_trim_def)
    finally show ?thesis .
  qed
qed

lemma ascii_trim_fixed:
  assumes "s \<noteq> []" "\<not> asciiSpace (hd s)" "\<not> asciiSpace (last s)"
  shows "ascii_trim s = s"
proof -
  from assms(1,2) have 1: "dropWhile asciiSpace s = s" by (cases s) simp_all
  from assms(1,3) have 2: "dropWhile asciiSpace (rev s) = rev s"
    by (cases "rev s") (simp_all add: last_rev [symmetric] hd_rev)
  show ?thesis by (simp add: ascii_trim_def 1 2)
qed

lemma ascii_trim_ends:
  assumes "ascii_trim s \<noteq> []"
  shows "\<not> asciiSpace (hd (ascii_trim s)) \<and> \<not> asciiSpace (last (ascii_trim s))"
proof -
  let ?d = "dropWhile asciiSpace s"
  let ?r = "dropWhile asciiSpace (rev ?d)"
  from assms have r: "?r \<noteq> []" by (simp add: ascii_trim_def)
  have d: "?d \<noteq> []"
  proof
    assume "?d = []"
    with r show False by simp
  qed
  have hr: "\<not> asciiSpace (hd ?r)" using r by (rule hd_dropWhile)
  have hd_d: "\<not> asciiSpace (hd ?d)" using d by (rule hd_dropWhile)
  have "last (ascii_trim s) = hd ?r" using r by (simp add: ascii_trim_def last_rev)
  moreover have "hd (ascii_trim s) = hd ?d"
  proof -
    obtain ys where ys: "rev ?d = takeWhile asciiSpace (rev ?d) @ ?r" by simp
    have "?d = rev ?r @ rev (takeWhile asciiSpace (rev ?d))"
      by (metis rev_append rev_rev_ident takeWhile_dropWhile_id)
    then have "hd ?d = hd (rev ?r)" using r by (metis hd_append2 rev_is_Nil_conv)
    then show ?thesis by (simp add: ascii_trim_def)
  qed
  ultimately show ?thesis using hr hd_d by simp
qed

lemma hd_filter_keep: "xs \<noteq> [] \<Longrightarrow> P (hd xs) \<Longrightarrow> hd (filter P xs) = hd xs"
  by (cases xs) simp_all

lemma last_filter_keep:
  assumes "xs \<noteq> []" "P (last xs)"
  shows "last (filter P xs) = last xs"
proof -
  have "rev xs \<noteq> []" "P (hd (rev xs))" using assms by (simp_all add: hd_rev)
  then have "hd (filter P (rev xs)) = hd (rev xs)" by (rule hd_filter_keep)
  then have "hd (rev (filter P xs)) = hd (rev xs)" by (simp add: rev_filter)
  then show ?thesis by (simp add: hd_rev)
qed

lemma asciiSpace_CR: "asciiSpace CR"
  by (simp add: asciiSpace_def)

lemma spec_strip_Nil: "ascii_trim l = [] \<Longrightarrow> spec_strip l = []"
  by (simp add: spec_strip_def)

lemma spec_strip_fixed:
  assumes "spec_strip l \<noteq> []"
  shows "ascii_trim (spec_strip l) = spec_strip l"
proof -
  let ?a = "ascii_trim l"
  from assms have a: "?a \<noteq> []" by (auto simp: spec_strip_def)
  from ascii_trim_ends [OF a] have e: "\<not> asciiSpace (hd ?a)" "\<not> asciiSpace (last ?a)" by simp_all
  then have ne: "hd ?a \<noteq> CR" "last ?a \<noteq> CR" using asciiSpace_CR by auto
  have "hd (spec_strip l) = hd ?a" unfolding spec_strip_def
    using a ne(1) by (rule hd_filter_keep)
  moreover have "last (spec_strip l) = last ?a" unfolding spec_strip_def
    using a ne(2) by (rule last_filter_keep)
  ultimately show ?thesis using assms e by (simp add: ascii_trim_fixed)
qed

lemma ascii_spec_strip: "ascii l \<Longrightarrow> ascii (spec_strip l)"
proof -
  have "set (ascii_trim l) \<subseteq> set l"
  proof
    fix c assume "c \<in> set (ascii_trim l)"
    then have "c \<in> set (dropWhile asciiSpace (rev (dropWhile asciiSpace l)))"
      by (simp add: ascii_trim_def)
    then have "c \<in> set (rev (dropWhile asciiSpace l))" by (rule set_dropWhileD)
    then have "c \<in> set (dropWhile asciiSpace l)" by simp
    then show "c \<in> set l" by (rule set_dropWhileD)
  qed
  then show "ascii l \<Longrightarrow> ascii (spec_strip l)"
    by (auto simp: ascii_def spec_strip_def)
qed

lemma trim_ascii: "ascii s \<Longrightarrow> trim e s = ascii_trim s"
  unfolding trim_def by (rule TrimSpace_ascii)

lemma formatProxy_spec:
  assumes "ascii l" "spec_strip l \<noteq> []"
  shows "formatProxy e (spec_strip l) = spec_normalize (spec_strip l)"
proof -
  have "trim e (spec_strip l) = spec_strip l"
    using trim_ascii [OF ascii_spec_strip [OF assms(1)]] spec_strip_fixed [OF assms(2)] by simp
  then show ?thesis
    by (simp add: formatProxy_def spec_normalize_def http_prefixed_def Let_def)
qed

lemma spec_normalize_nonempty: "s \<noteq> [] \<Longrightarrow> spec_normalize s \<noteq> []"
  by (simp add: spec_normalize_def)

lemma parse_lines_spec:
  "\<forall>l \<in> set ls. ascii l \<Longrightarrow>
     parse_lines e ls acc =
       acc @ map spec_normalize (filter (\<lambda>l. l \<noteq> []) (map spec_strip ls))"
proof (induction ls arbitrary: acc)
  case Nil
  then show ?case by simp
next
  case (Cons l ls)
  then have al: "ascii l" and als: "\<forall>l \<in> set ls. ascii l" by simp_all
  have line: "ReplaceAll_CR (trim e l) = spec_strip l"
    by (simp add: trim_ascii [OF al] ReplaceAll_CR_def spec_strip_def)
  show ?case
  proof (cases "spec_strip l = []")
    case True
    with Cons.IH [OF als] line show ?thesis by simp
  next
    case False
    with Cons.IH [OF als] line formatProxy_spec [OF al False, of e]
      spec_normalize_nonempty [OF False]
    show ?thesis by (simp add: Let_def)
  qed
qed

lemma Split_LF_nonempty: "Split_LF s \<noteq> []"
  by (induction s) (auto split: list.splits)

lemma Split_LF_ascii: "ascii s \<Longrightarrow> \<forall>l \<in> set (Split_LF s). ascii l"
  by (induction s) (auto simp: ascii_def split: list.splits)

lemma parse_body_ascii: "ascii body \<Longrightarrow> parse_body e body = spec_parse body"
  unfolding parse_body_def spec_parse_def
  using parse_lines_spec [OF Split_LF_ascii, of body e "[]"] by simp

lemma Split_LF_line: "LF \<notin> set l \<Longrightarrow> Split_LF (l @ LF # rest) = l # Split_LF rest"
  using Split_LF_nonempty by (induction l) (auto split: list.splits)

lemma Split_LF_lines:
  "\<forall>l \<in> set ls. LF \<notin> set l \<Longrightarrow> Split_LF (concat (map (\<lambda>l. l @ [LF]) ls)) = ls @ [[]]"
  by (induction ls) (simp_all add: Split_LF_line)

lemma Split_CRLF_lines:
  "\<forall>l \<in> set ls. LF \<notin> set l \<Longrightarrow>
     Split_LF (concat (map (\<lambda>l. l @ [CR, LF]) ls)) = map (\<lambda>l. l @ [CR]) ls @ [[]]"
proof (induction ls)
  case Nil
  then show ?case by simp
next
  case (Cons l ls)
  then have "LF \<notin> set (l @ [CR])" by simp
  from Split_LF_line [OF this] Cons show ?case by simp
qed

lemma ascii_trim_CR: "ascii_trim (l @ [CR]) = ascii_trim l"
proof (cases "\<forall>c \<in> set l. asciiSpace c")
  case True
  then have 1: "dropWhile asciiSpace l = []" by simp
  from True asciiSpace_CR have "\<forall>c \<in> set (l @ [CR]). asciiSpace c" by simp
  then have 2: "dropWhile asciiSpace (l @ [CR]) = []" by (simp only: dropWhile_eq_Nil_conv)
  show ?thesis by (simp only: ascii_trim_def 1 2)
next
  case False
  then obtain c where c: "c \<in> set l" "\<not> asciiSpace c" by auto
  then have "dropWhile asciiSpace (l @ [CR]) = dropWhile asciiSpace l @ [CR]"
    by (simp add: dropWhile_append1)
  then show ?thesis using asciiSpace_CR by (simp add: ascii_trim_def)
qed

lemma spec_strip_CR: "spec_strip (l @ [CR]) = spec_strip l"
  by (simp add: spec_strip_def ascii_trim_CR)

lemma ascii_concat: "\<forall>l \<in> set ls. ascii l \<Longrightarrow> ascii t \<Longrightarrow> ascii (concat (map (\<lambda>l. l @ t) ls))"
  by (auto simp: ascii_def)

lemma ascii_CR_LF: "ascii [CR, LF]" "ascii [LF]"
  by (simp_all add: ascii_def RuneSelf_def)

lemma formatProxy_nonempty: "formatProxy e l \<noteq> []"
  by (auto simp: formatProxy_def Let_def HasPrefix_def)

lemma parse_lines_map:
  "parse_lines e ls acc =
     acc @ map (formatProxy e)
             (filter (\<lambda>l. l \<noteq> []) (map (\<lambda>l. ReplaceAll_CR (trim e l)) ls))"
  by (induction ls arbitrary: acc) (simp_all add: Let_def formatProxy_nonempty)

lemma parse_body_map:
  "parse_body e body =
     map (formatProxy e)
       (filter (\<lambda>l. l \<noteq> []) (map (\<lambda>l. ReplaceAll_CR (trim e l)) (Split_LF body)))"
  by (simp add: parse_body_def parse_lines_map)

text \<open>
  Claim C8, as amended.  For every body, the pool that \<open>fetchProxies\<close> builds is
  obtained as follows: the body is split at line feeds; each line is trimmed of
  white space at both ends by \<open>TrimSpace\<close> and every carriage return in it is
  deleted, so that a CR LF terminator leaves nothing behind; lines that are then
  empty are dropped; each remaining entry goes through \<open>formatProxy\<close>, which
  trims it once more, keeps it when it starts with \<open>http://\<close> or \<open>https://\<close>
  and puts \<open>http://\<close> in front otherwise, whatever other scheme it may carry.
  For a body of ASCII bytes, where white space is the six ASCII characters, the
  second trimming changes nothing and the pool is \<open>spec_parse\<close> of the body; a
  list of such lines terminated by CR LF is parsed as the same lines terminated by
  LF.
\<close>

theorem parse_body_spec:
  "parse_body e body =
     map (formatProxy e)
       (filter (\<lambda>l. l \<noteq> []) (map (\<lambda>l. ReplaceAll_CR (trim e l)) (Split_LF body)))
   \<and> (HasPrefix (trim e s) ''http://'' \<or> HasPrefix (trim e s) ''https://'' \<longrightarrow>
        formatProxy e s = trim e s)
   \<and> (\<not> (HasPrefix (trim e s) ''http://'' \<or> HasPrefix (trim e s) ''https://'') \<longrightarrow>
        formatProxy e s = ''http://'' @ trim e s)
   \<and> (ascii body \<longrightarrow> parse_body e body = spec_parse body)
   \<and> ((\<forall>l \<in> set ls. ascii l \<and> LF \<notin> set l) \<longrightarrow>
        parse_body e (concat (map (\<lambda>l. l @ [CR, LF]) ls))
          = parse_body e (concat (map (\<lambda>l. l @ [LF]) ls)))
   \<and> (HasPrefix s ''http://'' \<or> HasPrefix s ''https://'' \<longrightarrow> spec_normalize s = s)
   \<and> (\<not> (HasPrefix s ''http://'' \<or> HasPrefix s ''https://'') \<longrightarrow>
        spec_normalize s = ''http://'' @ s)"
proof -
  have crlf: "parse_body e (concat (map (\<lambda>l. l @ [CR, LF]) ls))
      = parse_body e (concat (map (\<lambda>l. l @ [LF]) ls))"
    if h: "\<forall>l \<in> set ls. ascii l \<and> LF \<notin> set l"
  proof -
    from h have a: "\<forall>l \<in> set ls. ascii l" and n: "\<forall>l \<in> set ls. LF \<notin> set l" by simp_all
    have "parse_body e (concat (map (\<lambda>l. l @ [CR, LF]) ls))
        = spec_parse (concat (map (\<lambda>l. l @ [CR, LF]) ls))"
      by (rule parse_body_ascii) (rule ascii_concat [OF a ascii_CR_LF(1)])
    also have "\<dots> = map spec_normalize (filter (\<lambda>l. l \<noteq> []) (map spec_strip (ls @ [[]])))"
      by (simp add: spec_parse_def Split_CRLF_lines [OF n] o_def spec_strip_CR)
    also have "\<dots> = spec_parse (concat (map (\<lambda>l. l @ [LF]) ls))"
      by (simp add: spec_parse_def Split_LF_lines [OF n])
    also have "\<dots> = parse_body e (concat (map (\<lambda>l. l @ [LF]) ls))"
      by (rule parse_body_ascii [symmetric]) (rule ascii_concat [OF a ascii_CR_LF(2)])
    finally show ?thesis .
  qed
  have fp: "(HasPrefix (trim e s) ''http://'' \<or> HasPrefix (trim e s) ''https://'' \<longrightarrow>
        formatProxy e s = trim e s)
   \<and> (\<not> (HasPrefix (trim e s) ''http://'' \<or> HasPrefix (trim e s) ''https://'') \<longrightarrow>
        formatProxy e s = ''http://'' @ trim e s)"
    by (simp add: formatProxy_def Let_def)
  have sn: "(HasPrefix s ''http://'' \<or> HasPrefix s ''https://'' \<longrightarrow> spec_normalize s = s)
   \<and> (\<not> (HasPrefix s ''http://'' \<or> HasPrefix s ''https://'') \<longrightarrow>
        spec_normalize s = ''http://'' @ s)"
    by (simp add: spec_normalize_def http_prefixed_def)
  from parse_body_map [of e body] fp parse_body_ascii [of body e] crlf sn
  show ?thesis by blast
qed

theorem parse_body_spec_witness:
  "parse_body env0 (''   4.4.4.4:80'' @ [CR, LF] @ [CR, LF] @ ''https://5.5.5.5:443 '' @ [LF])
     = [''http://4.4.4.4:80'', ''https://5.5.5.5:443'']
   \<and> parse_body env0 (concat (map (\<lambda>l. l @ [CR, LF]) [''6.6.6.6:80'']))
     = parse_body env0 (concat (map (\<lambda>l. l @ [LF]) [''6.6.6.6:80'']))
   \<and> formatProxy env0 ''https://5.5.5.5:443'' = ''https://5.5.5.5:443''
   \<and> formatProxy env0 ''4.4.4.4:80'' = ''http://4.4.4.4:80''"
proof -
  let ?body = "''   4.4.4.4:80'' @ [CR, LF] @ [CR, LF] @ ''https://5.5.5.5:443 '' @ [LF]"
  have a: "ascii ?body" by (simp add: ascii_def RuneSelf_def)
  have l: "\<forall>l \<in> set [''6.6.6.6:80'']. ascii l \<and> LF \<notin> set l"
    by (simp add: ascii_def RuneSelf_def)
  have v: "spec_parse ?body = [''http://4.4.4.4:80'', ''https://5.5.5.5:443'']"
    by (simp add: spec_parse_def spec_strip_def ascii_trim_def asciiSpace_def
        spec_normalize_def http_prefixed_def HasPrefix_def)
  have t1: "trim env0 ''https://5.5.5.5:443'' = ''https://5.5.5.5:443''"
    by (simp add: trim_def env0_def RuneSelf_def asciiSpace_def)
  have t2: "trim env0 ''4.4.4.4:80'' = ''4.4.4.4:80''"
    by (simp add: trim_def env0_def RuneSelf_def asciiSpace_def)
  have p1: "HasPrefix (trim env0 ''https://5.5.5.5:443'') ''https://''"
    by (simp add: t1 HasPrefix_def)
  have p2: "\<not> (HasPrefix (trim env0 ''4.4.4.4:80'') ''http://''
              \<or> HasPrefix (trim env0 ''4.4.4.4:80'') ''https://'')"
    by (simp add: t2 HasPrefix_def)
  from parse_body_spec [of env0 ?body "[]" "[''6.6.6.6:80'']"] a
  have b: "parse_body env0 ?body = spec_parse ?body" by blast
  from parse_body_spec [of env0 ?body "[]" "[''6.6.6.6:80'']"] l
  have c: "parse_body env0 (concat (map (\<lambda>l. l @ [CR, LF]) [''6.6.6.6:80'']))
        = parse_body env0 (concat (map (\<lambda>l. l @ [LF]) [''6.6.6.6:80'']))" by blast
  have 1: "parse_body env0 ?body = [''http://4.4.4.4:80'', ''https://5.5.5.5:443'']
      \<and> parse_body env0 (concat (map (\<lambda>l. l @ [CR, LF]) [''6.6.6.6:80'']))
        = parse_body env0 (concat (map (\<lambda>l. l @ [LF]) [''6.6.6.6:80'']))"
    using b c by (simp only: v simp_thms)
  have 2: "formatProxy env0 ''https://5.5.5.5:443'' = ''https://5.5.5.5:443''"
  proof -
    from parse_body_spec [of env0 "[]" "''https://5.5.5.5:443''" "[]"] p1
    have "formatProxy env0 ''https://5.5.5.5:443'' = trim env0 ''https://5.5.5.5:443''" by blast
    then show ?thesis by (simp only: t1)
  qed
  have 3: "formatProxy env0 ''4.4.4.4:80'' = ''http://4.4.4.4:80''"
  proof -
    from parse_body_spec [of env0 "[]" "''4.4.4.4:80''" "[]"] p2
    have "formatProxy env0 ''4.4.4.4:80'' = ''http://'' @ trim env0 ''4.4.4.4:80''" by blast
    then show ?thesis by (simp add: t2)
  qed
  from 1 2 3 show ?thesis by blast
qed

text \<open>An entry with a scheme other than the two is not kept unchanged; a carriage
  return inside a line is deleted.\<close>

theorem parse_body_other_scheme_counterexample:
  "parse_body env0 ''socks5://1.2.3.4:1080'' = [''http://socks5://1.2.3.4:1080'']
   \<and> parse_body env0 ''socks5://1.2.3.4:1080'' \<noteq> [''socks5://1.2.3.4:1080'']"
  by (simp add: parse_body_def env0_def trim_def formatProxy_def RuneSelf_def asciiSpace_def
      ReplaceAll_CR_def HasPrefix_def Let_def)

lemma parse_body_inner_CR:
  "parse_body env0 (''1.2'' @ [CR] @ ''.3.4:80'') = [''http://1.2.3.4:80'']"
  by (simp add: parse_body_def env0_def trim_def formatProxy_def RuneSelf_def asciiSpace_def
      ReplaceAll_CR_def HasPrefix_def Let_def)

section \<open>Marking twice\<close>

lemma MarkVisited_ok:
  "fst (MarkVisited t x s) = None \<Longrightarrow>
     is_open (db s) \<and> x \<noteq> [] \<and> length x \<le> MaxKeySize \<and> length t \<le> MaxValueSize
     \<and> (\<exists>b. buckets (db s) (bucketName s) = Some b
          \<and> snd (MarkVisited t x s)
               = s\<lparr>db := (db s)\<lparr>buckets := (buckets (db s))(bucketName s \<mapsto> b(x \<mapsto> t))\<rparr>\<rparr>)"
  by (auto simp: MarkVisited_def Put_def split: option.splits if_splits)

lemma MarkVisited_succeeds:
  "is_open (db s) \<Longrightarrow> buckets (db s) (bucketName s) = Some b \<Longrightarrow> x \<noteq> [] \<Longrightarrow>
   length x \<le> MaxKeySize \<Longrightarrow> length t \<le> MaxValueSize \<Longrightarrow>
     MarkVisited t x s
       = (None, s\<lparr>db := (db s)\<lparr>buckets := (buckets (db s))(bucketName s \<mapsto> b(x \<mapsto> t))\<rparr>\<rparr>)"
  by (simp add: MarkVisited_def Put_def)

lemma IsVisited_dom:
  "is_open (db s) \<Longrightarrow> buckets (db s) (bucketName s) = Some b \<Longrightarrow> IsVisited x s = (x \<in> dom b)"
  by (auto simp: IsVisited_def)

text \<open>
  Claim C6.  After a \<open>MarkVisited\<close> of a URL that returned no error, a second
  \<open>MarkVisited\<close> of the same URL returns no error either (its timestamp, like any
  formatted time, is within the size bolt allows for a value), and \<open>IsVisited\<close>
  answers true after the first call and after the second.  The answer of
  \<open>IsVisited\<close> depends on the presence of the key in the bucket alone, not on the
  value stored with it.
\<close>

theorem MarkVisited_idempotent:
  assumes "fst (MarkVisited t1 x s) = None" and "length t2 \<le> MaxValueSize"
  shows "fst (MarkVisited t2 x (snd (MarkVisited t1 x s))) = None
     \<and> IsVisited x (snd (MarkVisited t1 x s))
     \<and> IsVisited x (snd (MarkVisited t2 x (snd (MarkVisited t1 x s))))
     \<and> (\<forall>s' b. is_open (db s') \<and> buckets (db s') (bucketName s') = Some b \<longrightarrow>
           IsVisited x s' = (x \<in> dom b))"
proof -
  from MarkVisited_ok [OF assms(1)] obtain b where
    o: "is_open (db s)" and x: "x \<noteq> []" "length x \<le> MaxKeySize" and
    b: "buckets (db s) (bucketName s) = Some b" and
    s1: "snd (MarkVisited t1 x s)
           = s\<lparr>db := (db s)\<lparr>buckets := (buckets (db s))(bucketName s \<mapsto> b(x \<mapsto> t1))\<rparr>\<rparr>"
    by blast
  let ?s1 = "snd (MarkVisited t1 x s)"
  have o1: "is_open (db ?s1)" and b1: "buckets (db ?s1) (bucketName ?s1) = Some (b(x \<mapsto> t1))"
    using o by (simp_all add: s1)
  have m2: "MarkVisited t2 x ?s1
      = (None, ?s1\<lparr>db := (db ?s1)\<lparr>buckets :=
           (buckets (db ?s1))(bucketName ?s1 \<mapsto> (b(x \<mapsto> t1))(x \<mapsto> t2))\<rparr>\<rparr>)"
    by (rule MarkVisited_succeeds [OF o1 b1 x assms(2)])
  have v1: "IsVisited x ?s1" using IsVisited_dom [OF o1 b1, of x] by simp
  have v2: "IsVisited x (snd (MarkVisited t2 x ?s1))"
    using o1 by (simp add: m2 IsVisited_def)
  show ?thesis using m2 v1 v2 IsVisited_dom by auto
qed

theorem MarkVisited_idempotent_witness:
  "fst (MarkVisited ''2024-05-01T10:00:00Z'' ''https://www.gsmarena.com/a-1.php'' store0) = None
   \<and> fst (MarkVisited ''2024-05-01T10:00:05Z'' ''https://www.gsmarena.com/a-1.php''
        (snd (MarkVisited ''2024-05-01T10:00:00Z'' ''https://www.gsmarena.com/a-1.php'' store0))) = None
   \<and> IsVisited ''https://www.gsmarena.com/a-1.php''
        (snd (MarkVisited ''2024-05-01T10:00:00Z'' ''https://www.gsmarena.com/a-1.php'' store0))
   \<and> \<not> IsVisited ''https://www.gsmarena.com/a-1.php'' store0"
proof -
  have 1: "fst (MarkVisited ''2024-05-01T10:00:00Z'' ''https://www.gsmarena.com/a-1.php'' store0) = None"
    by (simp add: MarkVisited_def Put_def store0_def MaxKeySize_def MaxValueSize_def)
  have 2: "length ''2024-05-01T10:00:05Z'' \<le> MaxValueSize" by (simp add: MaxValueSize_def)
  have 3: "\<not> IsVisited ''https://www.gsmarena.com/a-1.php'' store0"
    by (simp add: IsVisited_def store0_def)
  from MarkVisited_idempotent [OF 1 2] 1 3 show ?thesis by blast
qed

section \<open>Classification of failed requests\<close>


lemma OnError_404: "OnError 404 requestURL proxyURL err = [Mark requestURL]"
  by (simp add: OnError_def)

lemma OnError_blocking:
  "blocking statusCode \<Longrightarrow> OnError statusCode requestURL proxyURL err = evict_retry proxyURL"
  by (simp add: OnError_def blocking_def evict_retry_def) auto

lemma OnError_recognised:
  "statusCode \<noteq> 404 \<Longrightarrow> \<not> blocking statusCode \<Longrightarrow> recognised msg \<Longrightarrow>
     OnError statusCode requestURL proxyURL (Some msg) = evict_retry proxyURL"
  by (simp add: OnError_def blocking_def evict_retry_def recognised_def)

lemma OnError_other:
  "statusCode \<noteq> 404 \<Longrightarrow> \<not> blocking statusCode \<Longrightarrow> \<not> recognised msg \<Longrightarrow>
     OnError statusCode requestURL proxyURL (Some msg) = []"
  by (simp add: OnError_def blocking_def recognised_def)

lemma OnError_nil:
  "statusCode \<noteq> 404 \<Longrightarrow> \<not> blocking statusCode \<Longrightarrow>
     OnError statusCode requestURL proxyURL None = []"
  by (simp add: OnError_def blocking_def)









text \<open>
  The handler calls \<open>RemoveProxy\<close> only with a proxy URL that is not empty, and
  \<open>GetProxy\<close> ignores the request it is given: it records no proxy URL on it.
  When the request carries none, a retry evicts nothing: on status 429 the
  handler's only call is \<open>Retry\<close>.
\<close>

theorem OnError_without_proxy_url:
  "Evict p \<notin> set (OnError statusCode requestURL [] err)
   \<and> OnError 429 requestURL [] err = [Retry]"
proof -
  have "OnError statusCode requestURL [] err = [Mark requestURL]
      \<or> OnError statusCode requestURL [] err = [Retry]
      \<or> OnError statusCode requestURL [] err = []"
    by (cases "statusCode = 404"; cases "blocking statusCode"; cases err;
        cases "recognised (the err)")
       (simp_all add: OnError_404 OnError_blocking OnError_recognised OnError_other OnError_nil
          evict_retry_def)
  moreover have "OnError 429 requestURL [] err = [Retry]"
    by (simp add: OnError_blocking blocking_def evict_retry_def)
  ultimately show ?thesis by auto
qed

section \<open>Concurrent triggers of the asynchronous refresh\<close>

lemma fetchProxies_flag:
  "isRefreshing (pm (snd (fetchProxies e w))) = isRefreshing (pm w)"
  by (auto simp: fetchProxies_def Let_def split: reply.splits option.splits)

lemma inv_lock:
  "refresh_inv s \<Longrightarrow> g < length (routines s) \<Longrightarrow>
     holding (routines s ! g) = (refreshLock s = Some g)"
  by (simp add: refresh_inv_def)

lemma inv_flag_down:
  assumes "refresh_inv s" "g < length (routines s)" "routines s ! g = AtCheck"
  shows "\<not> isRefreshing (pm s)"
proof
  assume "isRefreshing (pm s)"
  with assms(1) obtain g' where g': "g' < length (routines s)" "flagged (routines s ! g')"
    by (auto simp: refresh_inv_def)
  then have "holding (routines s ! g')" by (auto simp: flagged_def holding_def)
  with assms(1) g'(1) have "refreshLock s = Some g'" by (simp add: refresh_inv_def)
  moreover have "holding (routines s ! g)" by (simp add: assms(3) holding_def)
  with inv_lock [OF assms(1,2)] have "refreshLock s = Some g" by simp
  ultimately have "g' = g" by simp
  with g'(2) assms(3) show False by (simp add: flagged_def)
qed

lemma inv_update:
  assumes inv: "refresh_inv s" and g: "g < length (routines s)"
    and lock: "refreshLock s' = (if holding p then Some g else None)"
    and old: "holding (routines s ! g) \<or> refreshLock s = None"
    and rs: "routines s' = (routines s)[g := p]"
    and flag: "isRefreshing (pm s') = flagged p"
    and oldflag: "flagged (routines s ! g) \<or> \<not> isRefreshing (pm s)"
    and p: "p \<noteq> Skipped"
  shows "refresh_inv s'"
proof -
  have others: "\<not> holding (routines s ! g')" if "g' < length (routines s)" "g' \<noteq> g" for g'
  proof
    assume h: "holding (routines s ! g')"
    with inv that(1) have l: "refreshLock s = Some g'" by (simp add: refresh_inv_def)
    with old have "holding (routines s ! g)" by simp
    with inv g have "refreshLock s = Some g" by (simp add: refresh_inv_def)
    with l that(2) show False by simp
  qed
  have others_flag: "\<not> flagged (routines s ! g')" if "g' < length (routines s)" "g' \<noteq> g" for g'
    using others [OF that] by (auto simp: flagged_def holding_def)
  have 1: "\<forall>g' < length (routines s'). holding (routines s' ! g') = (refreshLock s' = Some g')"
  proof (intro allI impI)
    fix g' assume "g' < length (routines s')"
    then have l: "g' < length (routines s)" by (simp add: rs)
    show "holding (routines s' ! g') = (refreshLock s' = Some g')"
    proof (cases "g' = g")
      case True
      with g show ?thesis by (simp add: rs lock)
    next
      case False
      with others [OF l False] show ?thesis by (auto simp: rs lock)
    qed
  qed
  have 2: "\<forall>g'. refreshLock s' = Some g' \<longrightarrow> g' < length (routines s')"
    using g by (auto simp: lock rs split: if_splits)
  have 3: "isRefreshing (pm s') = (\<exists>g' < length (routines s'). flagged (routines s' ! g'))"
  proof (cases "flagged p")
    case True
    with g have "g < length (routines s') \<and> flagged (routines s' ! g)" by (simp add: rs)
    with True flag show ?thesis by blast
  next
    case False
    have "\<not> flagged (routines s' ! g')" if "g' < length (routines s')" for g'
    proof (cases "g' = g")
      case True
      with False g show ?thesis by (simp add: rs)
    next
      case ne: False
      from that have "g' < length (routines s)" by (simp add: rs)
      from others_flag [OF this ne] ne show ?thesis by (simp add: rs)
    qed
    with False flag show ?thesis by blast
  qed
  have 4: "Skipped \<notin> set (routines s')"
  proof
    assume "Skipped \<in> set (routines s')"
    then have "Skipped \<in> insert p (set (routines s))"
      unfolding rs using set_update_subset_insert by fastforce
    with p inv show False by (simp add: refresh_inv_def)
  qed
  from 1 2 3 4 show ?thesis by (simp add: refresh_inv_def)
qed

lemma inv_flag_free:
  assumes "refresh_inv s" "refreshLock s = None"
  shows "\<not> isRefreshing (pm s)"
proof
  assume "isRefreshing (pm s)"
  with assms(1) obtain g' where g': "g' < length (routines s)" "flagged (routines s ! g')"
    by (auto simp: refresh_inv_def)
  then have "holding (routines s ! g')" by (auto simp: flagged_def holding_def)
  with inv_lock [OF assms(1) g'(1)] assms(2) show False by simp
qed

lemma inv_flag_up:
  assumes "refresh_inv s" "g < length (routines s)" "flagged (routines s ! g)"
  shows "isRefreshing (pm s)"
  using assms by (auto simp: refresh_inv_def)

lemma step_inv:
  assumes inv: "refresh_inv s"
  shows "refresh_inv (step e g s)"
proof (cases "g < length (routines s)")
  case False
  with inv show ?thesis by (simp add: step_def)
next
  case g: True
  show ?thesis
  proof (cases "routines s ! g")
    case AtLock
    show ?thesis
    proof (cases "refreshLock s = None")
      case True
      have "refresh_inv (s\<lparr>refreshLock := Some g, routines := (routines s)[g := AtCheck]\<rparr>)"
        using inv_flag_free [OF inv True] True
        by (intro inv_update [OF inv g, where p = AtCheck]) (simp_all add: holding_def flagged_def)
      with g AtLock True show ?thesis by (simp add: step_def)
    next
      case False
      then have "step e g s = s" using g AtLock by (auto simp: step_def)
      with inv show ?thesis by simp
    qed
  next
    case AtCheck
    have down: "\<not> isRefreshing (pm s)" by (rule inv_flag_down [OF inv g AtCheck])
    have l: "refreshLock s = Some g" using inv_lock [OF inv g] AtCheck by (simp add: holding_def)
    have "refresh_inv (s\<lparr>pm := (pm s)\<lparr>isRefreshing := True\<rparr>, routines := (routines s)[g := AtFetch]\<rparr>)"
      using down l AtCheck
      by (intro inv_update [OF inv g, where p = AtFetch]) (simp_all add: holding_def flagged_def)
    with g AtCheck down show ?thesis by (simp add: step_def)
  next
    case AtFetch
    have up: "isRefreshing (pm s)" using inv_flag_up [OF inv g] AtFetch by (simp add: flagged_def)
    have l: "refreshLock s = Some g" using inv_lock [OF inv g] AtFetch by (simp add: holding_def)
    have "refresh_inv (s\<lparr>routines := (routines s)[g := InFlight]\<rparr>)"
      using up l AtFetch
      by (intro inv_update [OF inv g, where p = InFlight]) (simp_all add: holding_def flagged_def)
    with g AtFetch show ?thesis by (simp add: step_def)
  next
    case InFlight
    have up: "isRefreshing (pm s)" using inv_flag_up [OF inv g] InFlight by (simp add: flagged_def)
    have l: "refreshLock s = Some g" using inv_lock [OF inv g] InFlight by (simp add: holding_def)
    let ?w1 = "snd (fetchProxies e \<lparr>pm = pm s, calls = calls s\<rparr>)"
    have f: "isRefreshing (pm ?w1)" using up fetchProxies_flag [of e "\<lparr>pm = pm s, calls = calls s\<rparr>"] by simp
    have "refresh_inv (s\<lparr>pm := pm ?w1, calls := calls ?w1, routines := (routines s)[g := AtDefer]\<rparr>)"
      using f l InFlight
      by (intro inv_update [OF inv g, where p = AtDefer]) (simp_all add: holding_def flagged_def)
    with g InFlight show ?thesis by (simp add: step_def Let_def)
  next
    case AtDefer
    have "refresh_inv (s\<lparr>pm := (pm s)\<lparr>isRefreshing := False\<rparr>, refreshLock := None,
                  routines := (routines s)[g := Fetched]\<rparr>)"
      using AtDefer
      by (intro inv_update [OF inv g, where p = Fetched]) (simp_all add: holding_def flagged_def)
    with g AtDefer show ?thesis by (simp add: step_def)
  next
    case Skipped
    with g inv show ?thesis by (simp add: step_def)
  next
    case Fetched
    with g inv show ?thesis by (simp add: step_def)
  qed
qed

lemma spawn_inv:
  assumes inv: "refresh_inv s"
  shows "refresh_inv (spawn s)"
proof -
  have lk: "refreshLock s \<noteq> Some (length (routines s))"
    using inv by (auto simp: refresh_inv_def)
  have 1: "\<forall>g < length (routines (spawn s)).
      holding (routines (spawn s) ! g) = (refreshLock (spawn s) = Some g)"
  proof (intro allI impI)
    fix g assume "g < length (routines (spawn s))"
    then have "g < length (routines s) \<or> g = length (routines s)" by (auto simp: spawn_def)
    then show "holding (routines (spawn s) ! g) = (refreshLock (spawn s) = Some g)"
    proof
      assume "g < length (routines s)"
      with inv_lock [OF inv this] show ?thesis by (simp add: spawn_def nth_append)
    next
      assume "g = length (routines s)"
      with lk show ?thesis by (simp add: spawn_def holding_def)
    qed
  qed
  have 2: "\<forall>g. refreshLock (spawn s) = Some g \<longrightarrow> g < length (routines (spawn s))"
    using inv by (auto simp: refresh_inv_def spawn_def)
  have 3: "isRefreshing (pm (spawn s)) =
      (\<exists>g < length (routines (spawn s)). flagged (routines (spawn s) ! g))"
  proof -
    have "(\<exists>g < length (routines (spawn s)). flagged (routines (spawn s) ! g))
        = (\<exists>g < length (routines s). flagged (routines s ! g))"
      by (auto simp: spawn_def nth_append flagged_def less_Suc_eq)
    with inv show ?thesis by (simp add: refresh_inv_def spawn_def)
  qed
  have 4: "Skipped \<notin> set (routines (spawn s))"
    using inv by (simp add: refresh_inv_def spawn_def)
  from 1 2 3 4 show ?thesis by (simp add: refresh_inv_def)
qed

lemma run_inv: "refresh_inv s \<Longrightarrow> refresh_inv (run e evs s)"
proof (induction evs arbitrary: s)
  case Nil
  then show ?case by simp
next
  case (Cons ev evs)
  show ?case
  proof (cases ev)
    case Go
    with Cons.IH [OF spawn_inv [OF Cons.prems]] show ?thesis by simp
  next
    case (Run g)
    with Cons.IH [OF step_inv [OF Cons.prems]] show ?thesis by simp
  qed
qed

lemma idle_inv: "idle s \<Longrightarrow> refresh_inv s"
  by (simp add: idle_def refresh_inv_def)

lemma filter_update_count:
  "g < length xs \<Longrightarrow>
     length (filter P (xs[g := y])) + (if P (xs ! g) then 1 else 0)
       = length (filter P xs) + (if P y then 1 else (0::nat))"
proof (induction xs arbitrary: g)
  case Nil
  then show ?case by simp
next
  case (Cons x xs)
  show ?case
  proof (cases g)
    case 0
    then show ?thesis by simp
  next
    case (Suc k)
    with Cons.prems have "k < length xs" by simp
    from Cons.IH [OF this] Suc show ?thesis by simp
  qed
qed

lemma fetched_update:
  "g < length rs \<Longrightarrow>
     fetched (rs[g := p]) + (if rs ! g = AtDefer \<or> rs ! g = Fetched then 1 else 0)
       = fetched rs + (if p = AtDefer \<or> p = Fetched then 1 else 0)"
  unfolding fetched_def by (rule filter_update_count)

lemma step_calls:
  "calls (step e g s) + fetched (routines s) = calls s + fetched (routines (step e g s))"
proof (cases "g < length (routines s)")
  case False
  then show ?thesis by (simp add: step_def)
next
  case g: True
  show ?thesis
  proof (cases "routines s ! g")
    case AtLock
    with g fetched_update [OF g, of AtCheck] show ?thesis by (simp add: step_def)
  next
    case AtCheck
    with g fetched_update [OF g, of Skipped] fetched_update [OF g, of AtFetch]
    show ?thesis by (simp add: step_def)
  next
    case AtFetch
    with g fetched_update [OF g, of InFlight] show ?thesis by (simp add: step_def)
  next
    case InFlight
    with g fetched_update [OF g, of AtDefer]
      fetchProxies_calls [of e "\<lparr>pm = pm s, calls = calls s\<rparr>"]
    show ?thesis by (simp add: step_def Let_def)
  next
    case AtDefer
    with g fetched_update [OF g, of Fetched] show ?thesis by (simp add: step_def)
  next
    case Skipped
    with g show ?thesis by (simp add: step_def)
  next
    case Fetched
    with g show ?thesis by (simp add: step_def)
  qed
qed

lemma spawn_calls: "calls (spawn s) = calls s" "fetched (routines (spawn s)) = fetched (routines s)"
  by (simp_all add: spawn_def fetched_def)

lemma run_calls:
  "calls (run e evs s) + fetched (routines s) = calls s + fetched (routines (run e evs s))"
proof (induction evs arbitrary: s)
  case Nil
  then show ?case by simp
next
  case (Cons ev evs)
  show ?case
  proof (cases ev)
    case Go
    with Cons.IH [of "spawn s"] show ?thesis by (simp add: spawn_calls)
  next
    case (Run g)
    with Cons.IH [of "step e g s"] step_calls [of e g s] show ?thesis by simp
  qed
qed

lemma fetched_quiescent:
  "quiescent rs \<Longrightarrow> Skipped \<notin> set rs \<Longrightarrow> fetched rs = length rs"
  unfolding fetched_def quiescent_def
  by (induction rs) auto

text \<open>
  From a pool on which no refresh is running, whatever the schedule: no goroutine
  ever takes the early return of \<open>asyncRefresh\<close>, because the flag is only up
  while the lock is held; at most one request is under way at a time; and the
  supplier has been called once for every goroutine whose fetch has returned, that
  is, once per trigger when all goroutines have returned.
\<close>

theorem asyncRefresh_every_trigger_fetches:
  assumes "idle s0"
  shows "Skipped \<notin> set (routines (run e evs s0))
     \<and> calls (run e evs s0) = calls s0 + fetched (routines (run e evs s0))
     \<and> (\<forall>g1 g2. g1 < length (routines (run e evs s0)) \<and> g2 < length (routines (run e evs s0))
           \<and> routines (run e evs s0) ! g1 = InFlight \<and> routines (run e evs s0) ! g2 = InFlight
           \<longrightarrow> g1 = g2)
     \<and> (quiescent (routines (run e evs s0)) \<longrightarrow>
           calls (run e evs s0) = calls s0 + length (routines (run e evs s0)))"
proof -
  let ?s = "run e evs s0"
  have inv: "refresh_inv ?s" by (rule run_inv [OF idle_inv [OF assms]])
  then have 1: "Skipped \<notin> set (routines ?s)" by (simp add: refresh_inv_def)
  have 2: "calls ?s = calls s0 + fetched (routines ?s)"
    using run_calls [of e evs s0] assms by (simp add: idle_def fetched_def)
  have 3: "g1 = g2"
    if "g1 < length (routines ?s)" "g2 < length (routines ?s)"
       "routines ?s ! g1 = InFlight" "routines ?s ! g2 = InFlight" for g1 g2
  proof -
    from inv_lock [OF inv that(1)] that(3) have "refreshLock ?s = Some g1" by (simp add: holding_def)
    moreover from inv_lock [OF inv that(2)] that(4) have "refreshLock ?s = Some g2"
      by (simp add: holding_def)
    ultimately show ?thesis by simp
  qed
  have 4: "calls ?s = calls s0 + length (routines ?s)" if "quiescent (routines ?s)"
    using 2 fetched_quiescent [OF that 1] by simp
  from 1 2 3 4 show ?thesis by blast
qed

lemma idle_conc0: "idle conc0"
  by (simp add: idle_def conc0_def)

theorem asyncRefresh_every_trigger_fetches_witness:
  "idle conc0 \<and> quiescent (routines (run env0 two_triggers conc0))
   \<and> calls (run env0 two_triggers conc0) = calls conc0 + length (routines (run env0 two_triggers conc0))"
proof -
  have q: "quiescent (routines (run env0 two_triggers conc0))"
    by (simp add: quiescent_def two_triggers_def conc0_def spawn_def step_def fetchProxies_def
        env0_def Let_def)
  from asyncRefresh_every_trigger_fetches [OF idle_conc0, of env0 two_triggers] q idle_conc0
  show ?thesis by blast
qed

text \<open>
  Claim C7.  Two triggers, the second arriving while the request of the first is
  under way: the second goroutine waits for the lock, finds the flag down when it
  gets it, and calls the supplier again.  The supplier is called twice.
\<close>

theorem two_triggers_two_calls:
  "routines (run env0 (take 6 two_triggers) conc0) = [InFlight, AtLock]
   \<and> calls (run env0 (take 6 two_triggers) conc0) = 0
   \<and> routines (run env0 two_triggers conc0) = [Fetched, Fetched]
   \<and> calls (run env0 two_triggers conc0) = 2"
  by (simp add: two_triggers_def conc0_def spawn_def step_def fetchProxies_def env0_def Let_def)

end
